theory Spec2Isabelle
  imports Complex_Main "HOL-Library.Char_ord" "HOL-Library.List_Lexorder"
begin

section \<open>JavaScript strings and the answer normaliser\<close>

text \<open>
  A JavaScript string is a sequence of UTF-16 code units; a code unit is modelled by its
  number. Text that is only stored and compared (user names, e-mail addresses, task types,
  categories, day keys) is a HOL \<open>string\<close>; text that is trimmed or normalised (answers,
  transcriptions) is a \<open>jsstring\<close>, since the curly quotes lie outside the 8-bit range.
\<close>

type_synonym jsstring = "nat list"

text \<open>
  The characters matched by \<open>\s\<close> in a regular expression and stripped by
  \<open>String.prototype.trim\<close>: TAB, LF, VT, FF, CR, SPACE, NBSP, U+1680, U+2000..U+200A,
  U+2028, U+2029, U+202F, U+205F, U+3000 and U+FEFF.
\<close>

definition is_space :: "nat \<Rightarrow> bool" where
  "is_space c \<longleftrightarrow>
     (9 \<le> c \<and> c \<le> 13) \<or> c = 32 \<or> c = 160 \<or> c = 5760 \<or> (8192 \<le> c \<and> c \<le> 8202) \<or>
     c = 8232 \<or> c = 8233 \<or> c = 8239 \<or> c = 8287 \<or> c = 12288 \<or> c = 65279"

text \<open>\<open>.replace(/\r/g, "")\<close>\<close>

definition strip_cr :: "jsstring \<Rightarrow> jsstring" where
  "strip_cr s = filter (\<lambda>c. c \<noteq> 13) s"

text \<open>\<open>.replace(/[\<dots>]/g, '"')\<close> on U+201C and U+201D, then \<open>.replace(/[\<dots>]/g, "'")\<close> on U+2019.\<close>

definition straighten_double :: "nat \<Rightarrow> nat" where
  "straighten_double c = (if c = 8220 \<or> c = 8221 then 34 else c)"

definition straighten_single :: "nat \<Rightarrow> nat" where
  "straighten_single c = (if c = 8217 then 39 else c)"

text \<open>\<open>.replace(/\s+/g, " ")\<close>: every maximal run of whitespace becomes one SPACE.\<close>

fun collapse_ws :: "jsstring \<Rightarrow> jsstring" where
  "collapse_ws [] = []"
| "collapse_ws [c] = [if is_space c then 32 else c]"
| "collapse_ws (c # d # cs) =
     (if is_space c then (if is_space d then collapse_ws (d # cs) else 32 # collapse_ws (d # cs))
      else c # collapse_ws (d # cs))"

text \<open>\<open>.trim()\<close>\<close>

definition trim :: "jsstring \<Rightarrow> jsstring" where
  "trim s = rev (dropWhile is_space (rev (dropWhile is_space s)))"

text \<open>
  \<open>normalize\<close> of tasks_transcription.js. The last step, \<open>.toLowerCase()\<close>, is a built-in
  of the language that follows the Unicode case tables; it is the parameter \<open>lc\<close>.
  \<open>before_lower\<close> is the chain of replacements and the trim that precede it.
\<close>

definition before_lower :: "jsstring \<Rightarrow> jsstring" where
  "before_lower s =
     trim (collapse_ws (map straighten_single (map straighten_double (strip_cr s))))"

definition normalize :: "(jsstring \<Rightarrow> jsstring) \<Rightarrow> jsstring \<Rightarrow> jsstring" where
  "normalize lc s = lc (before_lower s)"

text \<open>The lower-casing of the ASCII letters, an instance of \<open>lc\<close>.\<close>

definition ascii_lower :: "jsstring \<Rightarrow> jsstring" where
  "ascii_lower s = map (\<lambda>c. if 65 \<le> c \<and> c \<le> 90 then c + 32 else c) s"

text \<open>
  The two readings of "the strings differ only in curly-versus-straight quotes or in runs
  of whitespace" are stated on words: \<open>words_of\<close> splits a string at whitespace, and two
  strings are alike when they have the same words once their quotes are straightened.
  \<open>differ_only_in_quotes_or_whitespace\<close> follows the specification's words: every curly
  quote (U+2018, U+2019, U+201C, U+201D) and every whitespace character.
  \<open>differ_only_in_handled_quotes_or_whitespace\<close> is the narrower relation: carriage returns
  are deleted first, and the quotes are those the normaliser names.
\<close>

function words_of :: "jsstring \<Rightarrow> jsstring list" where
  "words_of [] = []"
| "words_of (c # cs) =
     (if is_space c then words_of cs
      else (c # takeWhile (\<lambda>x. \<not> is_space x) cs) #
           words_of (dropWhile (\<lambda>x. \<not> is_space x) cs))"
  by pat_completeness auto
termination
  by (relation "measure length") (auto simp: length_dropWhile_le le_imp_less_Suc)

fun unwords :: "jsstring list \<Rightarrow> jsstring" where
  "unwords [] = []"
| "unwords [w] = w"
| "unwords (w # v # ws) = w @ 32 # unwords (v # ws)"

definition straight_quote :: "nat \<Rightarrow> nat" where
  "straight_quote c =
     (if c = 8216 \<or> c = 8217 then 39 else if c = 8220 \<or> c = 8221 then 34 else c)"

definition differ_only_in_quotes_or_whitespace :: "jsstring \<Rightarrow> jsstring \<Rightarrow> bool" where
  "differ_only_in_quotes_or_whitespace s t \<longleftrightarrow>
     words_of (map straight_quote s) = words_of (map straight_quote t)"

definition handled_quote :: "nat \<Rightarrow> nat" where
  "handled_quote c = (if c = 8217 then 39 else if c = 8220 \<or> c = 8221 then 34 else c)"

definition differ_only_in_handled_quotes_or_whitespace :: "jsstring \<Rightarrow> jsstring \<Rightarrow> bool" where
  "differ_only_in_handled_quotes_or_whitespace s t \<longleftrightarrow>
     words_of (map handled_quote (filter (\<lambda>c. c \<noteq> 13) s)) =
     words_of (map handled_quote (filter (\<lambda>c. c \<noteq> 13) t))"

text \<open>Auxiliary notions for the proofs: trimming on the right, and lower-casing one code unit.\<close>

definition rtrim :: "jsstring \<Rightarrow> jsstring" where
  "rtrim s = rev (dropWhile is_space (rev s))"

definition lower1 :: "nat \<Rightarrow> nat" where
  "lower1 c = (if 65 \<le> c \<and> c \<le> 90 then c + 32 else c)"

section \<open>The store\<close>

text \<open>
  The tables of db.js that the handlers below read and write, each as the list of its rows
  in insertion order. Of a row, the columns kept are those the handlers use. The tables
  withdrawals, activation_fees, admins and admin_audit are not modelled.
  \<open>app_settings\<close> holds, for a key, the integer that \<open>Number.parseInt(value, 10)\<close> reads from
  the stored text; a key whose text is not a number has no entry.
\<close>

record user =
  u_id :: nat
  u_username :: string
  u_email :: string
  u_password_hash :: string
  u_referral_code :: string
  u_referred_by :: "nat option"
  u_balance_ksh :: int
  u_bonus_ksh :: int

record task =
  t_id :: nat
  t_type :: string
  t_category :: string
  t_reward_ksh :: int
  t_active :: bool
  t_answer_text :: "jsstring option"

record daily_task =
  dt_id :: nat
  dt_user_id :: nat
  dt_day_key :: string
  dt_task_id :: nat
  dt_completed_at :: "string option"
  dt_answer_text :: "jsstring option"

text \<open>
  Of \<open>created_at\<close> in task_completions the handlers read only
  \<open>date(datetime(created_at,'+3 hours'))\<close>, the Nairobi calendar day: \<open>tc_created_day\<close>.
\<close>

record task_completion =
  tc_user_id :: nat
  tc_task_id :: nat
  tc_reward_ksh :: int
  tc_answer_text :: "jsstring option"
  tc_created_day :: string

record daily_task_assignment =
  a_user_id :: nat
  a_day :: string
  a_task_id :: nat

record referral =
  r_referrer_id :: nat
  r_referred_user_id :: nat
  r_bonus_awarded_ksh :: int

record bonus_redemption =
  br_user_id :: nat
  br_amount_ksh :: int

record db =
  app_settings :: "(string \<times> int) list"
  users :: "user list"
  tasks :: "task list"
  task_completions :: "task_completion list"
  daily_tasks :: "daily_task list"
  daily_task_assignments :: "daily_task_assignment list"
  referrals :: "referral list"
  bonus_redemptions :: "bonus_redemption list"

text \<open>\<open>getIntSetting(key, fallback)\<close>\<close>

definition getIntSetting :: "db \<Rightarrow> string \<Rightarrow> int \<Rightarrow> int" where
  "getIntSetting d key fallback =
     (case map_of (app_settings d) key of Some n \<Rightarrow> n | None \<Rightarrow> fallback)"

text \<open>An AUTOINCREMENT key: one more than the largest key in the table.\<close>

definition next_id :: "nat list \<Rightarrow> nat" where
  "next_id ids = Suc (fold max ids 0)"

definition get_user :: "db \<Rightarrow> nat \<Rightarrow> user option" where
  "get_user d uid = find (\<lambda>u. u_id u = uid) (users d)"

section \<open>Daily task assignment\<close>

text \<open>
  Randomness (\<open>Math.random()\<close> and \<open>ORDER BY RANDOM()\<close>) is an oracle \<open>rnd\<close>, a sequence of
  natural numbers, read at a position that advances with every draw.
  \<open>random_row\<close> is \<open>SELECT \<dots> ORDER BY RANDOM() LIMIT 1\<close> over the rows given.
\<close>

definition random_row :: "(nat \<Rightarrow> nat) \<Rightarrow> nat \<Rightarrow> 'a list \<Rightarrow> 'a option" where
  "random_row rnd k rows = (if rows = [] then None else Some (rows ! (rnd k mod length rows)))"

text \<open>
  The shuffle of the categories:
  \<open>for (let i = n - 1; i > 0; i--) { j = Math.floor(Math.random() * (i + 1)); swap i, j }\<close>.
\<close>

fun shuffle_loop :: "(nat \<Rightarrow> nat) \<Rightarrow> nat \<Rightarrow> nat \<Rightarrow> 'a list \<Rightarrow> 'a list \<times> nat" where
  "shuffle_loop rnd k 0 xs = (xs, k)"
| "shuffle_loop rnd k (Suc i) xs =
     (let j = rnd k mod (Suc i + 1)
      in shuffle_loop rnd (Suc k) i (xs[Suc i := xs ! j, j := xs ! Suc i]))"

text \<open>
  The variables of \<open>ensureDailyTasks\<close> that the three selection loops update: the sets
  \<open>used\<close> and \<open>usedCats\<close>, the array \<open>picks\<close>, and the position in the oracle.
\<close>

record pick_state =
  used :: "string set"
  usedCats :: "string set"
  picks :: "nat list"
  draws :: nat

definition push_pick :: "task \<Rightarrow> pick_state \<Rightarrow> pick_state" where
  "push_pick row st =
     st\<lparr>used := insert (t_type row) (used st),
        usedCats := insert (t_category row) (usedCats st),
        picks := picks st @ [t_id row],
        draws := Suc (draws st)\<rparr>"

definition skip_draw :: "pick_state \<Rightarrow> pick_state" where
  "skip_draw st = st\<lparr>draws := Suc (draws st)\<rparr>"

text \<open>\<open>for (const cat of categories)\<close>; \<open>n\<close> is \<open>existing.length\<close>.\<close>

fun category_pass ::
  "(nat \<Rightarrow> nat) \<Rightarrow> task list \<Rightarrow> int \<Rightarrow> nat \<Rightarrow> string list \<Rightarrow> pick_state \<Rightarrow> pick_state" where
  "category_pass rnd ts limit n [] st = st"
| "category_pass rnd ts limit n (cat # cats) st =
     (if limit \<le> int (length (picks st) + n) then st
      else if cat \<in> usedCats st then category_pass rnd ts limit n cats st
      else (case random_row rnd (draws st) [t \<leftarrow> ts. t_active t \<and> t_category t = cat] of
              None \<Rightarrow> category_pass rnd ts limit n cats (skip_draw st)
            | Some row \<Rightarrow>
                if t_type row \<in> used st then category_pass rnd ts limit n cats (skip_draw st)
                else category_pass rnd ts limit n cats (push_pick row st)))"

text \<open>\<open>for (const typ of ALL_TYPES)\<close>\<close>

fun type_pass ::
  "(nat \<Rightarrow> nat) \<Rightarrow> task list \<Rightarrow> int \<Rightarrow> nat \<Rightarrow> string list \<Rightarrow> pick_state \<Rightarrow> pick_state" where
  "type_pass rnd ts limit n [] st = st"
| "type_pass rnd ts limit n (typ # typs) st =
     (if limit \<le> int (length (picks st) + n) then st
      else if typ \<in> used st then type_pass rnd ts limit n typs st
      else (case random_row rnd (draws st) [t \<leftarrow> ts. t_active t \<and> t_type t = typ] of
              None \<Rightarrow> type_pass rnd ts limit n typs (skip_draw st)
            | Some row \<Rightarrow> type_pass rnd ts limit n typs (push_pick row st)))"

text \<open>
  \<open>while (picks.length + existing.length < limit)\<close>, with the counter \<open>attempts\<close>. Every
  iteration draws one row, so \<open>draws\<close> counts the iterations.
\<close>

function fill_loop ::
  "(nat \<Rightarrow> nat) \<Rightarrow> task list \<Rightarrow> int \<Rightarrow> nat \<Rightarrow> nat \<Rightarrow> pick_state \<Rightarrow> pick_state" where
  "fill_loop rnd ts limit n attempts st =
     (if int (length (picks st) + n) < limit then
        (let cleared = (250 < attempts + 1);
             attempts' = (if cleared then 0 else attempts + 1);
             st' = (if cleared then st\<lparr>used := {}\<rparr> else st)
         in case random_row rnd (draws st') [t \<leftarrow> ts. t_active t] of
              None \<Rightarrow> skip_draw st'
            | Some row \<Rightarrow>
                if t_type row \<in> used st' then fill_loop rnd ts limit n attempts' (skip_draw st')
                else fill_loop rnd ts limit n attempts' (push_pick row st'))
      else st)"
  by pat_completeness auto
termination
  by (relation "measures [\<lambda>(rnd, ts, limit, n, attempts, st). nat (limit - int (length (picks st) + n)),
                          \<lambda>(rnd, ts, limit, n, attempts, st). 251 - attempts]")
     (auto simp: push_pick_def skip_draw_def split: if_splits)

text \<open>\<open>INSERT OR IGNORE INTO daily_tasks (user_id, day_key, task_id) VALUES (?,?,?)\<close>\<close>

definition insert_or_ignore_daily_task :: "nat \<Rightarrow> string \<Rightarrow> nat \<Rightarrow> db \<Rightarrow> db" where
  "insert_or_ignore_daily_task userId dayKey tid d =
     (if \<exists>r \<in> set (daily_tasks d). dt_user_id r = userId \<and> dt_day_key r = dayKey \<and> dt_task_id r = tid
      then d
      else d\<lparr>daily_tasks := daily_tasks d @
             [\<lparr>dt_id = next_id (map dt_id (daily_tasks d)), dt_user_id = userId,
               dt_day_key = dayKey, dt_task_id = tid, dt_completed_at = None,
               dt_answer_text = None\<rparr>]\<rparr>)"

definition clean_broken_rows :: "db \<Rightarrow> db" where
  "clean_broken_rows d =
     (let d1 = d\<lparr>daily_tasks := [r \<leftarrow> daily_tasks d. dt_user_id r \<in> u_id ` set (users d)]\<rparr>
      in d1\<lparr>daily_tasks := [r \<leftarrow> daily_tasks d1. dt_task_id r \<in> t_id ` set (tasks d1)]\<rparr>)"

definition existing_rows :: "db \<Rightarrow> nat \<Rightarrow> string \<Rightarrow> daily_task list" where
  "existing_rows d userId dayKey =
     [r \<leftarrow> daily_tasks d. dt_user_id r = userId \<and> dt_day_key r = dayKey]"

definition fallback_types :: "string list" where
  "fallback_types =
     [''audio_transcription'', ''video_transcription'', ''image_caption'', ''image_tagging'',
      ''text_cleanup'']"

definition select_picks :: "(nat \<Rightarrow> nat) \<Rightarrow> db \<Rightarrow> int \<Rightarrow> daily_task list \<Rightarrow> pick_state" where
  "select_picks rnd d limit existing =
     (let joined = [t \<leftarrow> tasks d. t_id t \<in> dt_task_id ` set existing];
          typeRows = sort (remdups (map t_type [t \<leftarrow> tasks d. t_active t]));
          ALL_TYPES = (let typs = [x \<leftarrow> typeRows. x \<noteq> []]
                       in if typs = [] then fallback_types else typs);
          catRows = sort (remdups (map t_category [t \<leftarrow> tasks d. t_active t]));
          (categories, k) = (let cats = [x \<leftarrow> catRows. x \<noteq> []]
                             in shuffle_loop rnd 0 (length cats - 1) cats);
          st0 = \<lparr>used = t_type ` set joined, usedCats = t_category ` set joined,
                 picks = [], draws = k\<rparr>;
          st1 = category_pass rnd (tasks d) limit (length existing) categories st0;
          st2 = type_pass rnd (tasks d) limit (length existing) ALL_TYPES st1
      in fill_loop rnd (tasks d) limit (length existing) 0 st2)"

definition ensureDailyTasks :: "(nat \<Rightarrow> nat) \<Rightarrow> db \<Rightarrow> nat \<Rightarrow> string \<Rightarrow> db" where
  "ensureDailyTasks rnd d0 userId dayKey =
     (let d = clean_broken_rows d0 in
      if get_user d userId = None then d
      else
        let limit = getIntSetting d ''tasks_per_day'' 10;
            existing = existing_rows d userId dayKey
        in if limit \<le> int (length existing) then d
           else fold (insert_or_ignore_daily_task userId dayKey)
                  (picks (select_picks rnd d limit existing)) d)"

text \<open>
  Notions for the proofs about \<open>ensureDailyTasks\<close>: the invariant of the three selection
  loops (the picks never number more than the limit allows, and are keys of the catalog),
  the constraint \<open>UNIQUE(user_id, day_key, task_id)\<close> of the table daily_tasks, and the
  property that every row of daily_tasks refers to a user and a task that exist.
\<close>

definition pick_inv :: "task list \<Rightarrow> int \<Rightarrow> nat \<Rightarrow> pick_state \<Rightarrow> bool" where
  "pick_inv ts limit n st \<longleftrightarrow>
     int (length (picks st) + n) \<le> limit \<and> set (picks st) \<subseteq> t_id ` set ts"


definition references_exist :: "db \<Rightarrow> bool" where
  "references_exist d \<longleftrightarrow>
     (\<forall>r \<in> set (daily_tasks d).
        dt_user_id r \<in> u_id ` set (users d) \<and> dt_task_id r \<in> t_id ` set (tasks d))"

section \<open>Statements, failures and transactions\<close>

text \<open>
  A write statement either yields the new store or raises (\<open>None\<close>): a constraint is
  violated, or the storage layer fails. Storage failures are an input of the handlers:
  \<open>fails n\<close> tells whether the \<open>n\<close>-th call of \<open>run\<close> made by the handler raises. A statement
  that raises changes nothing.

  A connection holds the committed store and, between \<open>BEGIN\<close> and \<open>COMMIT\<close> or \<open>ROLLBACK\<close>,
  the store as the open transaction sees it. Outside a transaction every statement
  commits on its own. \<open>ROLLBACK\<close> is taken not to fail.
\<close>

record conn =
  committed :: db
  open_tx :: "db option"

definition current :: "conn \<Rightarrow> db" where
  "current c = (case open_tx c of Some w \<Rightarrow> w | None \<Rightarrow> committed c)"

definition run_stmt :: "bool \<Rightarrow> (db \<Rightarrow> db option) \<Rightarrow> conn \<Rightarrow> conn option" where
  "run_stmt fault stmt c =
     (if fault then None
      else case stmt (current c) of
             None \<Rightarrow> None
           | Some d' \<Rightarrow>
               Some (case open_tx c of Some w \<Rightarrow> c\<lparr>open_tx := Some d'\<rparr>
                                     | None \<Rightarrow> c\<lparr>committed := d'\<rparr>))"

definition begin_tx :: "bool \<Rightarrow> conn \<Rightarrow> conn option" where
  "begin_tx fault c = (if fault then None else Some (c\<lparr>open_tx := Some (current c)\<rparr>))"

definition commit_tx :: "bool \<Rightarrow> conn \<Rightarrow> conn option" where
  "commit_tx fault c =
     (if fault then None else Some \<lparr>committed = current c, open_tx = None\<rparr>)"

definition rollback_tx :: "conn \<Rightarrow> conn" where
  "rollback_tx c = c\<lparr>open_tx := None\<rparr>"

text \<open>
  A \<open>try\<close> block of awaited statements: \<open>Inr c\<close> when all have run and left the connection
  in \<open>c\<close>, \<open>Inl c\<close> when one has raised with the connection in \<open>c\<close>.
\<close>

definition and_then :: "conn + conn \<Rightarrow> (conn \<Rightarrow> conn option) \<Rightarrow> conn + conn" where
  "and_then r f =
     (case r of Inl c \<Rightarrow> Inl c
              | Inr c \<Rightarrow> (case f c of None \<Rightarrow> Inl c | Some c' \<Rightarrow> Inr c'))"

datatype error =
    InvalidTaskId | AnswerRequired | NotAssigned | AlreadyCompleted | TaskNotFound
  | CompleteFailed | DailyLimitReached | TranscriptionMismatch | BadRequest | ServerError
  | UserNotFound | ThresholdNotMet | EmailRegistered | UsernameTaken | EmailOrUsernameExists
  | InvalidReferralCode | InvalidId

section \<open>Completing a task\<close>

text \<open>The three writes of \<open>POST /api/tasks/:id/complete\<close>.\<close>

definition stamp_daily_task :: "nat \<Rightarrow> string \<Rightarrow> jsstring \<Rightarrow> db \<Rightarrow> db option" where
  "stamp_daily_task dtid now ans d =
     Some (d\<lparr>daily_tasks :=
             map (\<lambda>r. if dt_id r = dtid
                      then r\<lparr>dt_completed_at := Some now, dt_answer_text := Some ans\<rparr> else r)
               (daily_tasks d)\<rparr>)"

text \<open>
  \<open>INSERT INTO task_completions\<close>: the foreign keys on \<open>user_id\<close> and \<open>task_id\<close> are enforced
  (\<open>PRAGMA foreign_keys = ON\<close>).
\<close>

definition insert_task_completion ::
  "nat \<Rightarrow> nat \<Rightarrow> int \<Rightarrow> jsstring option \<Rightarrow> string \<Rightarrow> db \<Rightarrow> db option" where
  "insert_task_completion userId tid reward ans day d =
     (if userId \<in> u_id ` set (users d) \<and> tid \<in> t_id ` set (tasks d)
      then Some (d\<lparr>task_completions := task_completions d @
                   [\<lparr>tc_user_id = userId, tc_task_id = tid, tc_reward_ksh = reward,
                     tc_answer_text = ans, tc_created_day = day\<rparr>]\<rparr>)
      else None)"

definition credit_balance :: "nat \<Rightarrow> int \<Rightarrow> db \<Rightarrow> db option" where
  "credit_balance userId amount d =
     Some (d\<lparr>users :=
             map (\<lambda>u. if u_id u = userId then u\<lparr>u_balance_ksh := u_balance_ksh u + amount\<rparr>
                      else u) (users d)\<rparr>)"

text \<open>\<open>LIMIT n\<close>: a negative \<open>n\<close> is no limit.\<close>

definition sql_limit :: "int \<Rightarrow> 'a list \<Rightarrow> 'a list" where
  "sql_limit n rows = (if n < 0 then rows else take (nat n) rows)"

definition remaining_today :: "db \<Rightarrow> nat \<Rightarrow> string \<Rightarrow> nat" where
  "remaining_today d userId dayKey =
     (let limit = getIntSetting d ''tasks_per_day'' 10;
          rows = sql_limit limit
                   (sort_key dt_id
                      [r \<leftarrow> daily_tasks d. dt_user_id r = userId \<and> dt_day_key r = dayKey \<and>
                                              dt_task_id r \<in> t_id ` set (tasks d)])
      in length [r \<leftarrow> rows. dt_completed_at r = None])"

record complete_body =
  body_answer_text :: "jsstring option"
  body_answer :: "jsstring option"

text \<open>
  \<open>(req.body.answer_text ?? req.body.answer ?? "").toString().trim()\<close>; a field holds the
  text that \<open>toString()\<close> gives of its value, \<open>None\<close> when it is null or absent.
\<close>

definition submitted_answer :: "complete_body \<Rightarrow> jsstring" where
  "submitted_answer body =
     trim (case body_answer_text body of
             Some a \<Rightarrow> a
           | None \<Rightarrow> (case body_answer body of Some a \<Rightarrow> a | None \<Rightarrow> []))"

record complete_response =
  resp_balance_ksh :: int
  resp_remaining :: nat

definition balance_or_zero :: "db \<Rightarrow> nat \<Rightarrow> int" where
  "balance_or_zero d userId = (case get_user d userId of Some u \<Rightarrow> u_balance_ksh u | None \<Rightarrow> 0)"

text \<open>
  \<open>POST /api/tasks/:id/complete\<close>. \<open>taskId\<close> is \<open>Number(req.params.id)\<close>: \<open>None\<close> when it is
  not finite, \<open>Some n\<close> for the key \<open>n\<close> (a finite number that is not a key of the table
  behaves as a key that no row has). \<open>now\<close> is \<open>CURRENT_TIMESTAMP\<close>, \<open>dayKey\<close> the value of
  \<open>dayKeyNairobi()\<close>. The calls of \<open>run\<close> are numbered 0 (\<open>BEGIN\<close>) to 4 (\<open>COMMIT\<close>).
\<close>

definition post_api_tasks_complete ::
  "(nat \<Rightarrow> bool) \<Rightarrow> string \<Rightarrow> string \<Rightarrow> nat \<Rightarrow> nat option \<Rightarrow> complete_body \<Rightarrow> db \<Rightarrow>
   (error + complete_response) \<times> db" where
  "post_api_tasks_complete fails now dayKey userId taskId body d =
     (case taskId of
        None \<Rightarrow> (Inl InvalidTaskId, d)
      | Some tid \<Rightarrow>
          let ans = submitted_answer body
          in if length ans < 2 then (Inl AnswerRequired, d)
             else
               case find (\<lambda>r. dt_user_id r = userId \<and> dt_day_key r = dayKey \<and> dt_task_id r = tid)
                      (daily_tasks d) of
                 None \<Rightarrow> (Inl NotAssigned, d)
               | Some dt \<Rightarrow>
                   if dt_completed_at dt \<noteq> None \<and> dt_completed_at dt \<noteq> Some [] then
                     (Inl AlreadyCompleted, d)
                   else
                     case find (\<lambda>t. t_id t = tid \<and> t_active t) (tasks d) of
                       None \<Rightarrow> (Inl TaskNotFound, d)
                     | Some task \<Rightarrow>
                         (case begin_tx (fails 0) \<lparr>committed = d, open_tx = None\<rparr> of
                            None \<Rightarrow> (Inl CompleteFailed, d)
                          | Some c0 \<Rightarrow>
                              (case and_then (and_then (and_then (and_then (Inr c0)
                                      (run_stmt (fails 1) (stamp_daily_task (dt_id dt) now ans)))
                                      (run_stmt (fails 2)
                                         (insert_task_completion userId tid (t_reward_ksh task)
                                            (Some ans) dayKey)))
                                      (run_stmt (fails 3)
                                         (credit_balance userId (t_reward_ksh task))))
                                      (commit_tx (fails 4)) of
                                 Inl c \<Rightarrow> (Inl CompleteFailed, committed (rollback_tx c))
                               | Inr c \<Rightarrow>
                                   (Inr \<lparr>resp_balance_ksh = balance_or_zero (committed c) userId,
                                         resp_remaining =
                                           remaining_today (committed c) userId dayKey\<rparr>,
                                    committed c))))"




section \<open>Redeeming the bonus\<close>

definition transfer_bonus :: "nat \<Rightarrow> int \<Rightarrow> db \<Rightarrow> db" where
  "transfer_bonus userId amount d =
     d\<lparr>users :=
         map (\<lambda>u. if u_id u = userId
                  then u\<lparr>u_balance_ksh := u_balance_ksh u + amount,
                         u_bonus_ksh := u_bonus_ksh u - amount\<rparr>
                  else u) (users d)\<rparr>"

record redeem_response =
  redeemed_ksh :: int
  new_balance_ksh :: int
  new_bonus_ksh :: int

text \<open>
  \<open>POST /api/referrals/redeem\<close>. The response of the source carries the balance and the
  bonus read back after the update; \<open>redeemed_ksh\<close> records the amount passed to the
  update. The row read back exists, since the update keeps every key: the branch for a
  missing row is never taken.
\<close>

definition post_api_referrals_redeem :: "nat \<Rightarrow> db \<Rightarrow> (error + redeem_response) \<times> db" where
  "post_api_referrals_redeem userId d =
     (case get_user d userId of
        None \<Rightarrow> (Inl UserNotFound, d)
      | Some u \<Rightarrow>
          let threshold = getIntSetting d ''referral_redeem_threshold_ksh'' 1000;
              transfer = getIntSetting d ''referral_redeem_transfer_ksh'' 1000
          in if u_bonus_ksh u < threshold then (Inl ThresholdNotMet, d)
             else
               let d' = transfer_bonus userId transfer d
               in (case get_user d' userId of
                     None \<Rightarrow> (Inl ServerError, d')
                   | Some me \<Rightarrow>
                       (Inr \<lparr>redeemed_ksh = transfer, new_balance_ksh = u_balance_ksh me,
                             new_bonus_ksh = u_bonus_ksh me\<rparr>, d')))"

text \<open>\<open>POST /redeem\<close> of referrals.js: threshold and amount are the constant 1000.\<close>

definition post_redeem :: "nat \<Rightarrow> db \<Rightarrow> (error + redeem_response) \<times> db" where
  "post_redeem userId d =
     (case get_user d userId of
        None \<Rightarrow> (Inl UserNotFound, d)
      | Some me \<Rightarrow>
          if u_bonus_ksh me < 1000 then (Inl ThresholdNotMet, d)
          else
            let redeemAmount = 1000;
                d1 = transfer_bonus userId redeemAmount d;
                d2 = d1\<lparr>bonus_redemptions := bonus_redemptions d1 @
                          [\<lparr>br_user_id = userId, br_amount_ksh = redeemAmount\<rparr>]\<rparr>
            in (case get_user d2 userId of
                  None \<Rightarrow> (Inl ServerError, d2)
                | Some after \<Rightarrow>
                    (Inr \<lparr>redeemed_ksh = redeemAmount, new_balance_ksh = u_balance_ksh after,
                          new_bonus_ksh = u_bonus_ksh after\<rparr>, d2)))"

section \<open>Registration and the referral bonus\<close>

text \<open>\<open>String.prototype.trim\<close> on a HOL string, whose characters are read as code units.\<close>

definition str_trim :: "string \<Rightarrow> string" where
  "str_trim s =
     rev (dropWhile (\<lambda>c. is_space (of_char c)) (rev (dropWhile (\<lambda>c. is_space (of_char c)) s)))"

definition is_alnum :: "char \<Rightarrow> bool" where
  "is_alnum c \<longleftrightarrow>
     (let n = of_char c :: nat
      in (48 \<le> n \<and> n \<le> 57) \<or> (65 \<le> n \<and> n \<le> 90) \<or> (97 \<le> n \<and> n \<le> 122))"

definition to_upper :: "char \<Rightarrow> char" where
  "to_upper c =
     (let n = of_char c :: nat
      in if 97 \<le> n \<and> n \<le> 122 then ''ABCDEFGHIJKLMNOPQRSTUVWXYZ'' ! (n - 97) else c)"

definition four_digits :: "nat \<Rightarrow> string" where
  "four_digits n =
     map (\<lambda>d. ''0123456789'' ! d) [n div 1000 mod 10, n div 100 mod 10, n div 10 mod 10, n mod 10]"

text \<open>
  \<open>makeReferralCode(username)\<close>; \<open>r\<close> is the random draw, and
  \<open>Math.floor(1000 + Math.random() * 9000)\<close> is \<open>1000 + r mod 9000\<close>, a number of four digits.
\<close>

definition makeReferralCode :: "string \<Rightarrow> nat \<Rightarrow> string" where
  "makeReferralCode username r =
     (let base = map to_upper (take 6 (filter is_alnum username));
          rand = 1000 + r mod 9000
      in (if base = [] then ''USER'' else base) @ four_digits rand)"

text \<open>\<open>for (let i = 0; i < 10; i++)\<close>: the loop that looks for a referral code not in use.\<close>

fun unique_code_loop :: "(nat \<Rightarrow> nat) \<Rightarrow> string \<Rightarrow> db \<Rightarrow> nat \<Rightarrow> nat \<Rightarrow> string \<Rightarrow> string" where
  "unique_code_loop rnd username d 0 k code = code"
| "unique_code_loop rnd username d (Suc i) k code =
     (if code \<notin> u_referral_code ` set (users d) then code
      else unique_code_loop rnd username d i (Suc k) (makeReferralCode username (rnd k)))"

text \<open>
  \<open>INSERT INTO users\<close>: \<open>username\<close>, \<open>email\<close> and \<open>referral_code\<close> are UNIQUE, \<open>referred_by\<close>
  is a foreign key. The result carries \<open>lastID\<close>.
\<close>

definition insert_user ::
  "string \<Rightarrow> string \<Rightarrow> string \<Rightarrow> string \<Rightarrow> nat option \<Rightarrow> db \<Rightarrow> (db \<times> nat) option" where
  "insert_user username email password_hash code referredBy d =
     (if username \<in> u_username ` set (users d) \<or> email \<in> u_email ` set (users d) \<or>
         code \<in> u_referral_code ` set (users d) \<or>
         (case referredBy of Some r \<Rightarrow> r \<notin> u_id ` set (users d) | None \<Rightarrow> False)
      then None
      else
        let lastID = next_id (map u_id (users d))
        in Some (d\<lparr>users := users d @
                   [\<lparr>u_id = lastID, u_username = username, u_email = email,
                     u_password_hash = password_hash, u_referral_code = code,
                     u_referred_by = referredBy, u_balance_ksh = 0, u_bonus_ksh = 0\<rparr>]\<rparr>,
                 lastID))"

definition credit_bonus :: "nat \<Rightarrow> int \<Rightarrow> db \<Rightarrow> db" where
  "credit_bonus userId amount d =
     d\<lparr>users :=
         map (\<lambda>u. if u_id u = userId then u\<lparr>u_bonus_ksh := u_bonus_ksh u + amount\<rparr> else u)
           (users d)\<rparr>"

record register_body =
  reg_username :: string
  reg_email :: string
  reg_password :: string
  reg_referralCode :: string

text \<open>
  \<open>POST /api/auth/register\<close>. \<open>email_ok\<close> is the e-mail pattern of \<open>z.string().email()\<close> and
  \<open>hash\<close> is \<open>bcrypt.hash\<close>, both library code; an absent \<open>referralCode\<close> is the empty
  string. The result is \<open>lastID\<close>, the key the token is signed for.
\<close>

definition post_api_auth_register ::
  "(string \<Rightarrow> bool) \<Rightarrow> (string \<Rightarrow> string) \<Rightarrow> (nat \<Rightarrow> nat) \<Rightarrow> register_body \<Rightarrow> db \<Rightarrow>
   (error + nat) \<times> db" where
  "post_api_auth_register email_ok hash rnd data d =
     (if \<not> (3 \<le> length (reg_username data) \<and> email_ok (reg_email data) \<and>
             6 \<le> length (reg_password data))
      then (Inl BadRequest, d)
      else if reg_email data \<in> u_email ` set (users d) then (Inl EmailRegistered, d)
      else if reg_username data \<in> u_username ` set (users d) then (Inl UsernameTaken, d)
      else
        case (if str_trim (reg_referralCode data) \<noteq> []
              then (case find (\<lambda>u. u_referral_code u = str_trim (reg_referralCode data)) (users d) of
                      None \<Rightarrow> None
                    | Some ref \<Rightarrow> Some (Some (u_id ref)))
              else Some None) of
          None \<Rightarrow> (Inl InvalidReferralCode, d)
        | Some referredById \<Rightarrow>
            let referral_code =
                  unique_code_loop rnd (reg_username data) d 10 1
                    (makeReferralCode (reg_username data) (rnd 0))
            in (case insert_user (reg_username data) (reg_email data) (hash (reg_password data))
                       referral_code referredById d of
                  None \<Rightarrow> (Inl BadRequest, d)
                | Some (d1, lastID) \<Rightarrow>
                    (Inr lastID,
                     (case referredById of
                        None \<Rightarrow> d1
                      | Some rid \<Rightarrow>
                          if rid = 0 then d1
                          else
                            let rb = getIntSetting d1 ''referral_bonus_ksh'' 100
                            in if 0 < rb then credit_bonus rid rb d1 else d1))))"

text \<open>
  \<open>generateReferralCode()\<close> of the second registration route: up to 50 codes of eight
  characters, each character a draw; \<open>None\<close> when the function throws.
\<close>

definition code_chars :: string where
  "code_chars = ''ABCDEFGHJKLMNPQRSTUVWXYZ23456789''"

fun generateReferralCode :: "(nat \<Rightarrow> nat) \<Rightarrow> db \<Rightarrow> nat \<Rightarrow> nat \<Rightarrow> string option" where
  "generateReferralCode rnd d 0 k = None"
| "generateReferralCode rnd d (Suc tries) k =
     (let code = map (\<lambda>i. code_chars ! (rnd (k + i) mod length code_chars)) [0..<8]
      in if code \<notin> u_referral_code ` set (users d) then Some code
         else generateReferralCode rnd d tries (k + 8))"

text \<open>
  Modelled from the spec: the table \<open>referrals\<close>, whose declaration is not among the sources,
  is "enforced unique per referred_user"; \<open>INSERT OR IGNORE\<close> therefore drops a row whose
  referred user already has one.
\<close>

definition insert_or_ignore_referral :: "nat \<Rightarrow> nat \<Rightarrow> int \<Rightarrow> db \<Rightarrow> db" where
  "insert_or_ignore_referral referrer referred amount d =
     (if referred \<in> r_referred_user_id ` set (referrals d) then d
      else d\<lparr>referrals := referrals d @
             [\<lparr>r_referrer_id = referrer, r_referred_user_id = referred,
               r_bonus_awarded_ksh = amount\<rparr>]\<rparr>)"

record register_body2 =
  reg2_username :: string
  reg2_email :: string
  reg2_password :: string
  reg2_referral_code :: string

text \<open>
  \<open>POST /register\<close> of the second registration route (the column \<open>phone\<close> is not modelled).
  The result is the key of the new user.
\<close>

definition post_register ::
  "(string \<Rightarrow> bool) \<Rightarrow> (string \<Rightarrow> string) \<Rightarrow> (nat \<Rightarrow> nat) \<Rightarrow> register_body2 \<Rightarrow> db \<Rightarrow>
   (error + nat) \<times> db" where
  "post_register email_ok hash rnd body d =
     (if \<not> (3 \<le> length (reg2_username body) \<and> email_ok (reg2_email body) \<and>
             6 \<le> length (reg2_password body))
      then (Inl BadRequest, d)
      else if \<exists>u \<in> set (users d). u_email u = reg2_email body \<or> u_username u = reg2_username body
      then (Inl EmailOrUsernameExists, d)
      else
        case (if str_trim (reg2_referral_code body) \<noteq> []
              then (case find (\<lambda>u. u_referral_code u = str_trim (reg2_referral_code body))
                           (users d) of
                      None \<Rightarrow> None
                    | Some referrer \<Rightarrow> Some (Some (u_id referrer)))
              else Some None) of
          None \<Rightarrow> (Inl InvalidReferralCode, d)
        | Some referrer \<Rightarrow>
            (case generateReferralCode rnd d 50 0 of
               None \<Rightarrow> (Inl ServerError, d)
             | Some myCode \<Rightarrow>
                 (case insert_user (reg2_username body) (reg2_email body)
                         (hash (reg2_password body)) myCode referrer d of
                    None \<Rightarrow> (Inl ServerError, d)
                  | Some (d1, newUserId) \<Rightarrow>
                      (Inr newUserId,
                       (case referrer of
                          None \<Rightarrow> d1
                        | Some rid \<Rightarrow>
                            credit_bonus rid 100
                              (insert_or_ignore_referral rid newUserId 100 d1))))))"

section \<open>The administrative overrides\<close>

text \<open>
  A field of a JSON body: a finite number, or anything else (absent, not a number, or a
  number beyond the floating-point range). \<open>z.number().int().min(0)\<close> accepts the finite
  numbers that are integers and not negative.
\<close>

datatype json = JNumber rat | JOther

definition parse_nonneg_int :: "json \<Rightarrow> int option" where
  "parse_nonneg_int v =
     (case v of
        JNumber q \<Rightarrow> if of_int \<lfloor>q\<rfloor> = q \<and> 0 \<le> q then Some \<lfloor>q\<rfloor> else None
      | JOther \<Rightarrow> None)"

text \<open>
  \<open>POST /api/admin/users/:id/balance\<close> and \<open>POST /api/admin/users/:id/bonus\<close>; \<open>userIdParam\<close>
  is \<open>Number(req.params.id)\<close>, \<open>None\<close> when it is not finite. The response is the row read back.
\<close>

definition post_api_admin_users_balance ::
  "nat option \<Rightarrow> json \<Rightarrow> db \<Rightarrow> (error + user option) \<times> db" where
  "post_api_admin_users_balance userIdParam balance_field d =
     (case parse_nonneg_int balance_field of
        None \<Rightarrow> (Inl BadRequest, d)
      | Some balance \<Rightarrow>
          (case userIdParam of
             None \<Rightarrow> (Inl InvalidId, d)
           | Some uid \<Rightarrow>
               let d' = d\<lparr>users := map (\<lambda>u. if u_id u = uid then u\<lparr>u_balance_ksh := balance\<rparr>
                                               else u) (users d)\<rparr>
               in (Inr (get_user d' uid), d')))"

definition post_api_admin_users_bonus ::
  "nat option \<Rightarrow> json \<Rightarrow> db \<Rightarrow> (error + user option) \<times> db" where
  "post_api_admin_users_bonus userIdParam bonus_field d =
     (case parse_nonneg_int bonus_field of
        None \<Rightarrow> (Inl BadRequest, d)
      | Some bonus \<Rightarrow>
          (case userIdParam of
             None \<Rightarrow> (Inl InvalidId, d)
           | Some uid \<Rightarrow>
               let d' = d\<lparr>users := map (\<lambda>u. if u_id u = uid then u\<lparr>u_bonus_ksh := bonus\<rparr>
                                               else u) (users d)\<rparr>
               in (Inr (get_user d' uid), d')))"

section \<open>A sample store\<close>

text \<open>
  Two users, three active tasks of three types, and one task assigned to the first user
  on 2024-05-01; the settings are the seeded defaults.
\<close>

definition alice :: user where
  "alice =
     \<lparr>u_id = 1, u_username = ''alice'', u_email = ''alice@example.com'',
      u_password_hash = ''h1'', u_referral_code = ''ALICE1234'', u_referred_by = None,
      u_balance_ksh = 40, u_bonus_ksh = 1050\<rparr>"

definition bob :: user where
  "bob =
     \<lparr>u_id = 2, u_username = ''bob'', u_email = ''bob@example.com'',
      u_password_hash = ''h2'', u_referral_code = ''BOB5678'', u_referred_by = Some 1,
      u_balance_ksh = 0, u_bonus_ksh = 950\<rparr>"

definition sample_tasks :: "task list" where
  "sample_tasks =
     [\<lparr>t_id = 1, t_type = ''audio_transcription'', t_category = ''Transcription'',
       t_reward_ksh = 20, t_active = True, t_answer_text = Some [72, 105]\<rparr>,
      \<lparr>t_id = 2, t_type = ''image_caption'', t_category = ''Images'',
       t_reward_ksh = 10, t_active = True, t_answer_text = None\<rparr>,
      \<lparr>t_id = 3, t_type = ''survey'', t_category = ''Surveys'',
       t_reward_ksh = 15, t_active = True, t_answer_text = None\<rparr>]"

definition sample_db :: db where
  "sample_db =
     \<lparr>app_settings =
        [(''tasks_per_day'', 10), (''referral_bonus_ksh'', 100),
         (''referral_redeem_threshold_ksh'', 1000), (''referral_redeem_transfer_ksh'', 1000)],
      users = [alice, bob],
      tasks = sample_tasks,
      task_completions = [],
      daily_tasks =
        [\<lparr>dt_id = 1, dt_user_id = 1, dt_day_key = ''2024-05-01'', dt_task_id = 1,
          dt_completed_at = None, dt_answer_text = None\<rparr>],
      daily_task_assignments = [\<lparr>a_user_id = 1, a_day = ''2024-05-01'', a_task_id = 1\<rparr>],
      referrals = [],
      bonus_redemptions = []\<rparr>"

text \<open>
  A small catalog: the sample store with a daily limit of 2, two active tasks of one type
  and one category, and no assignment yet.
\<close>

definition small_tasks :: "task list" where
  "small_tasks =
     [\<lparr>t_id = 1, t_type = ''survey'', t_category = ''Surveys'',
       t_reward_ksh = 15, t_active = True, t_answer_text = None\<rparr>,
      \<lparr>t_id = 2, t_type = ''survey'', t_category = ''Surveys'',
       t_reward_ksh = 15, t_active = True, t_answer_text = None\<rparr>]"

definition small_db :: db where
  "small_db = sample_db\<lparr>app_settings := [(''tasks_per_day'', 2)], tasks := small_tasks,
                         daily_tasks := []\<rparr>"

text \<open>A registration with the referral code of the first user, for either route.\<close>

definition carol :: register_body where
  "carol = \<lparr>reg_username = ''carol'', reg_email = ''carol@example.com'',
            reg_password = ''secret1'', reg_referralCode = '' ALICE1234 ''\<rparr>"

definition carol2 :: register_body2 where
  "carol2 = \<lparr>reg2_username = ''carol'', reg2_email = ''carol@example.com'',
             reg2_password = ''secret1'', reg2_referral_code = '' ALICE1234 ''\<rparr>"

definition sample_email_ok :: "string \<Rightarrow> bool" where
  "sample_email_ok s \<longleftrightarrow> CHR ''@'' \<in> set s"

definition sample_hash :: "string \<Rightarrow> string" where
  "sample_hash p = CHR ''#'' # p"

section \<open>Properties of the normaliser\<close>

lemma trim_rtrim: "trim s = rtrim (dropWhile is_space s)"
  by (simp add: trim_def rtrim_def)

lemma rtrim_Cons: "rtrim (c # xs) = (if rtrim xs = [] \<and> is_space c then [] else c # rtrim xs)"
  unfolding rtrim_def by (simp add: dropWhile_append dropWhile_eq_Nil_conv)

lemma rtrim_Nil [simp]: "rtrim [] = []" by (simp add: rtrim_def)

lemma collapse_nonspace: "\<not> is_space c \<Longrightarrow> collapse_ws (c # cs) = c # collapse_ws cs"
  by (cases cs) auto

lemma collapse_space:
  "is_space c \<Longrightarrow> collapse_ws (c # cs) = 32 # collapse_ws (dropWhile is_space cs)"
proof (induction cs arbitrary: c)
  case Nil then show ?case by simp
next
  case (Cons d ds)
  show ?case
  proof (cases "is_space d")
    case True
    with Cons show ?thesis by simp
  next
    case False
    with Cons.prems show ?thesis by simp
  qed
qed

lemma space32: "is_space 32" by (simp add: is_space_def)

lemma words_dropWhile: "words_of (dropWhile is_space s) = words_of s"
  by (induction s) auto

lemma words_props:
  "w \<in> set (words_of s) \<Longrightarrow> w \<noteq> [] \<and> (\<forall>c\<in>set w. \<not> is_space c) \<and> set w \<subseteq> set s"
proof (induction s arbitrary: w rule: words_of.induct)
  case 1 then show ?case by simp
next
  case (2 c cs)
  show ?case
  proof (cases "is_space c")
    case True with 2 show ?thesis by auto
  next
    case False
    have a: "set (takeWhile (\<lambda>x. \<not> is_space x) cs) \<subseteq> set cs"
      by (auto dest: set_takeWhileD)
    have b: "\<forall>x\<in>set (takeWhile (\<lambda>x. \<not> is_space x) cs). \<not> is_space x"
      by (auto dest: set_takeWhileD)
    have c: "set (dropWhile (\<lambda>x. \<not> is_space x) cs) \<subseteq> set cs"
      by (auto dest: set_dropWhileD)
    from 2(3) False have "w = c # takeWhile (\<lambda>x. \<not> is_space x) cs \<or> w \<in> set (words_of (dropWhile (\<lambda>x. \<not> is_space x) cs))"
      by simp
    then show ?thesis
    proof
      assume "w = c # takeWhile (\<lambda>x. \<not> is_space x) cs"
      with a b False show ?thesis by auto
    next
      assume "w \<in> set (words_of (dropWhile (\<lambda>x. \<not> is_space x) cs))"
      from 2(2)[OF False this] c show ?thesis by auto
    qed
  qed
qed

lemma unwords_Nil_iff: "(\<forall>w\<in>set ws. w \<noteq> []) \<Longrightarrow> unwords ws = [] \<longleftrightarrow> ws = []"
  by (induction ws rule: unwords.induct) auto

lemma unwords_Cons: "unwords (w # ws) = (if ws = [] then w else w @ 32 # unwords ws)"
  by (cases ws) auto

lemma rtrim_nonspace_append:
  "\<forall>x\<in>set u. \<not> is_space x \<Longrightarrow> rtrim (u @ y) = u @ rtrim y"
  by (induction u) (simp_all add: rtrim_Cons)

lemma collapse_nonspace_append:
  "\<forall>x\<in>set u. \<not> is_space x \<Longrightarrow> collapse_ws (u @ y) = u @ collapse_ws y"
  by (induction u) (simp_all add: collapse_nonspace)

lemma trim_space_Cons: "is_space x \<Longrightarrow> trim (x # z) = trim z"
  by (simp add: trim_def)

lemma trim_collapse_dropWhile:
  "trim (collapse_ws (dropWhile is_space cs)) = trim (collapse_ws cs)"
proof (induction cs)
  case Nil then show ?case by simp
next
  case (Cons d ds)
  show ?case
  proof (cases "is_space d")
    case True
    then show ?thesis
      using Cons by (simp add: collapse_space trim_space_Cons space32)
  next
    case False then show ?thesis by simp
  qed
qed

lemma trim_collapse_space:
  "is_space c \<Longrightarrow> trim (collapse_ws (c # cs)) = trim (collapse_ws cs)"
  by (simp add: collapse_space trim_space_Cons space32 trim_collapse_dropWhile)

lemma collapse_head:
  "xs = [] \<or> \<not> is_space (hd xs) \<Longrightarrow> dropWhile is_space (collapse_ws xs) = collapse_ws xs"
  by (cases xs) (auto simp: collapse_nonspace)

lemma dropWhile_head: "dropWhile P xs = [] \<or> \<not> P (hd (dropWhile P xs))"
  by (metis hd_dropWhile)

lemma rtrim_collapse_space:
  assumes "is_space e"
  shows "rtrim (collapse_ws (e # es)) =
         (if trim (collapse_ws (e # es)) = [] then [] else 32 # trim (collapse_ws (e # es)))"
proof -
  let ?z = "collapse_ws (dropWhile is_space es)"
  have z: "dropWhile is_space ?z = ?z"
    by (rule collapse_head) (rule dropWhile_head)
  have c: "collapse_ws (e # es) = 32 # ?z"
    using assms by (rule collapse_space)
  have t: "trim (32 # ?z) = rtrim ?z"
    by (simp add: trim_rtrim space32 z)
  show ?thesis
    unfolding c t by (simp add: rtrim_Cons space32)
qed

lemma trim_collapse_words: "trim (collapse_ws s) = unwords (words_of s)"
proof (induction s rule: words_of.induct)
  case 1 then show ?case by (simp add: trim_def)
next
  case (2 c cs)
  show ?case
  proof (cases "is_space c")
    case True
    with 2 show ?thesis by (simp add: trim_collapse_space)
  next
    case False
    let ?w = "takeWhile (\<lambda>x. \<not> is_space x) cs"
    let ?r = "dropWhile (\<lambda>x. \<not> is_space x) cs"
    have ih: "trim (collapse_ws ?r) = unwords (words_of ?r)"
      using 2(2)[OF False] .
    have free: "\<forall>x\<in>set (c # ?w). \<not> is_space x"
      using False by (auto dest: set_takeWhileD)
    have "c # cs = (c # ?w) @ ?r" by simp
    then have col: "collapse_ws (c # cs) = (c # ?w) @ collapse_ws ?r"
      using collapse_nonspace_append[OF free, of ?r] by simp
    have tr: "trim (collapse_ws (c # cs)) = (c # ?w) @ rtrim (collapse_ws ?r)"
      unfolding col using False rtrim_nonspace_append[OF free, of "collapse_ws ?r"]
      by (simp add: trim_rtrim)
    have nonempty: "\<forall>w\<in>set (words_of ?r). w \<noteq> []"
      using words_props by blast
    show ?thesis
    proof (cases ?r)
      case Nil
      have a: "rtrim (collapse_ws ?r) = []" and b: "words_of ?r = []"
        unfolding Nil by simp_all
      have "words_of (c # cs) = (c # ?w) # words_of ?r" using False by simp
      then show ?thesis unfolding tr a b by simp
    next
      case (Cons e es)
      have "is_space e"
        using hd_dropWhile[of "\<lambda>x. \<not> is_space x" cs] Cons by simp
      from rtrim_collapse_space[OF this, of es] ih Cons
      have "rtrim (collapse_ws ?r) =
            (if unwords (words_of ?r) = [] then [] else 32 # unwords (words_of ?r))"
        by simp
      then show ?thesis
        using tr False unwords_Nil_iff[OF nonempty] by (simp add: unwords_Cons)
    qed
  qed
qed

lemma words_of_word_append:
  assumes "u \<noteq> []" "\<forall>x\<in>set u. \<not> is_space x" "y = [] \<or> is_space (hd y)"
  shows "words_of (u @ y) = u # words_of y"
proof -
  obtain c u' where u: "u = c # u'" using assms(1) by (cases u) auto
  have tw: "takeWhile (\<lambda>x. \<not> is_space x) (u' @ y) = u'"
    using assms(2,3) u by (cases y) (simp_all add: takeWhile_append2 takeWhile_append)
  have dw: "dropWhile (\<lambda>x. \<not> is_space x) (u' @ y) = y"
    using assms(2,3) u by (cases y) (simp_all add: dropWhile_append2 dropWhile_append)
  show ?thesis using u assms(2) tw dw by simp
qed

lemma words_of_unwords:
  "\<forall>w\<in>set ws. w \<noteq> [] \<and> (\<forall>c\<in>set w. \<not> is_space c) \<Longrightarrow> words_of (unwords ws) = ws"
proof (induction ws rule: unwords.induct)
  case 1 then show ?case by simp
next
  case (2 w)
  then show ?case using words_of_word_append[of w "[]"] by simp
next
  case (3 w v ws)
  then show ?case
    using words_of_word_append[of w "32 # unwords (v # ws)"] by (simp add: space32)
qed


lemma handled_quote_eq: "straighten_single (straighten_double c) = handled_quote c"
  by (simp add: straighten_single_def straighten_double_def handled_quote_def)

lemma before_lower_words:
  "before_lower s = unwords (words_of (map handled_quote (strip_cr s)))"
  by (simp add: before_lower_def trim_collapse_words handled_quote_eq o_def)

lemma set_unwords: "set (unwords ws) \<subseteq> insert 32 (\<Union>(set ` set ws))"
  by (induction ws rule: unwords.induct) auto

lemma handled_quote_fix:
  "c \<noteq> 8217 \<Longrightarrow> c \<noteq> 8220 \<Longrightarrow> c \<noteq> 8221 \<Longrightarrow> handled_quote c = c"
  by (simp add: handled_quote_def)

lemma handled_quote_range: "handled_quote c \<noteq> 8217 \<and> handled_quote c \<noteq> 8220 \<and> handled_quote c \<noteq> 8221"
  by (simp add: handled_quote_def)

lemma cr_space: "is_space 13" by (simp add: is_space_def)

lemma strip_cr_id: "\<forall>c\<in>set x. c \<noteq> 13 \<Longrightarrow> strip_cr x = x"
  by (simp add: strip_cr_def filter_id_conv)

lemma before_lower_idem: "before_lower (before_lower s) = before_lower s"
proof -
  let ?y = "map handled_quote (strip_cr s)"
  let ?W = "words_of ?y"
  let ?x = "unwords ?W"
  have good: "\<forall>w\<in>set ?W. w \<noteq> [] \<and> (\<forall>c\<in>set w. \<not> is_space c)"
    using words_props by blast
  have chars: "\<forall>c\<in>set ?x. c = 32 \<or> (\<not> is_space c \<and> c \<in> set ?y)"
  proof
    fix c assume "c \<in> set ?x"
    then have "c = 32 \<or> (\<exists>w\<in>set ?W. c \<in> set w)"
      using set_unwords[of ?W] by auto
    then show "c = 32 \<or> (\<not> is_space c \<and> c \<in> set ?y)"
      using words_props[of _ ?y] by blast
  qed
  have nocr: "\<forall>c\<in>set ?x. c \<noteq> 13"
    using chars cr_space by auto
  have noq: "\<forall>c\<in>set ?x. handled_quote c = c"
  proof
    fix c assume "c \<in> set ?x"
    with chars have "c = 32 \<or> c \<in> set ?y" by blast
    then show "handled_quote c = c"
    proof
      assume "c = 32" then show ?thesis by (simp add: handled_quote_def)
    next
      assume "c \<in> set ?y"
      then obtain d where "c = handled_quote d" by auto
      then show ?thesis using handled_quote_range[of d] by (simp add: handled_quote_fix)
    qed
  qed
  have 1: "strip_cr ?x = ?x"
    by (rule strip_cr_id[OF nocr])
  have 2: "map handled_quote ?x = ?x"
    using noq by (simp add: map_idI)
  have "before_lower ?x = unwords (words_of ?x)"
    by (simp only: before_lower_words 1 2)
  also have "\<dots> = ?x"
    by (simp only: words_of_unwords[OF good])
  finally show ?thesis by (simp only: before_lower_words)
qed

lemma ascii_lower_idem: "ascii_lower (ascii_lower s) = ascii_lower s"
  by (simp add: ascii_lower_def)

lemma lower1_space: "is_space (lower1 c) = is_space c"
  by (auto simp: lower1_def is_space_def)

lemma collapse_lower: "collapse_ws (map lower1 s) = map lower1 (collapse_ws s)"
  by (induction s rule: collapse_ws.induct) (simp_all add: lower1_space, simp_all add: lower1_def)

lemma dropWhile_lower: "dropWhile is_space (map lower1 s) = map lower1 (dropWhile is_space s)"
  by (simp add: dropWhile_map o_def lower1_space)

lemma trim_lower: "trim (map lower1 s) = map lower1 (trim s)"
  by (simp add: trim_def dropWhile_lower rev_map)

lemma before_lower_ascii: "before_lower (ascii_lower s) = ascii_lower (before_lower s)"
proof -
  have a: "ascii_lower = map lower1" by (simp add: ascii_lower_def lower1_def fun_eq_iff)
  have 1: "strip_cr (map lower1 s) = map lower1 (strip_cr s)"
    by (induction s) (simp_all add: strip_cr_def lower1_def)
  have 2: "map straighten_single (map straighten_double (map lower1 t)) =
           map lower1 (map straighten_single (map straighten_double t))" for t
    by (simp add: straighten_single_def straighten_double_def lower1_def)
  show ?thesis
    unfolding a before_lower_def 1 2 collapse_lower trim_lower ..
qed

text \<open>
  C8 (as amended). For every lower-casing function \<open>lc\<close> that is idempotent and keeps a
  string already cleaned by the replacements and the trim clean, \<open>normalize\<close> is idempotent;
  and two strings that, once carriage returns are deleted, differ only in the quotes
  U+201C, U+201D, U+2019 against their straight forms or in runs of whitespace have the
  same normal form.
\<close>

theorem normalize_idempotent_and_insensitive:
  assumes "\<And>x. lc (lc x) = lc x"
    and "\<And>x. before_lower x = x \<Longrightarrow> before_lower (lc x) = lc x"
    and "differ_only_in_handled_quotes_or_whitespace s t"
  shows "normalize lc (normalize lc s) = normalize lc s \<and> normalize lc s = normalize lc t"
proof
  have "before_lower (lc (before_lower s)) = lc (before_lower s)"
    by (rule assms(2)) (rule before_lower_idem)
  then show "normalize lc (normalize lc s) = normalize lc s"
    by (simp add: normalize_def assms(1))
  show "normalize lc s = normalize lc t"
    using assms(3)
    by (simp add: normalize_def before_lower_words strip_cr_def
        differ_only_in_handled_quotes_or_whitespace_def)
qed

text \<open>
  The theorem at the ASCII lower-casing: a quoted greeting typed with curly quotes, a
  line break and stray blanks against the same text typed plainly.
\<close>

theorem normalize_idempotent_and_insensitive_witness:
  "(\<forall>x. ascii_lower (ascii_lower x) = ascii_lower x) \<and>
   (\<forall>x. before_lower (ascii_lower x) = ascii_lower (before_lower x)) \<and>
   differ_only_in_handled_quotes_or_whitespace
     [32, 8220, 72, 105, 8221, 13, 10, 9, 73, 8217, 109, 32] [34, 72, 105, 34, 32, 73, 39, 109] \<and>
   normalize ascii_lower
     (normalize ascii_lower [32, 8220, 72, 105, 8221, 13, 10, 9, 73, 8217, 109, 32]) =
   normalize ascii_lower [32, 8220, 72, 105, 8221, 13, 10, 9, 73, 8217, 109, 32] \<and>
   normalize ascii_lower [32, 8220, 72, 105, 8221, 13, 10, 9, 73, 8217, 109, 32] =
   normalize ascii_lower [34, 72, 105, 34, 32, 73, 39, 109]"
proof -
  have h1: "\<And>x. ascii_lower (ascii_lower x) = ascii_lower x"
    by (rule ascii_lower_idem)
  have h2: "\<And>x. before_lower x = x \<Longrightarrow> before_lower (ascii_lower x) = ascii_lower x"
    by (simp add: before_lower_ascii)
  have h3: "differ_only_in_handled_quotes_or_whitespace
     [32, 8220, 72, 105, 8221, 13, 10, 9, 73, 8217, 109, 32] [34, 72, 105, 34, 32, 73, 39, 109]"
    by (simp add: differ_only_in_handled_quotes_or_whitespace_def handled_quote_def is_space_def)
  have h4: "\<forall>x. before_lower (ascii_lower x) = ascii_lower (before_lower x)"
    by (simp add: before_lower_ascii)
  from normalize_idempotent_and_insensitive[of ascii_lower, OF h1 h2 h3] h1 h3 h4
  show ?thesis by blast
qed

text \<open>
  C8 as stated fails: "a", CARRIAGE RETURN, "b" and "a", SPACE, "b" differ only in a run
  of whitespace, yet the first is normalised to "ab" and the second to "a b".
\<close>

theorem normalize_cr_counterexample:
  "differ_only_in_quotes_or_whitespace [97, 13, 98] [97, 32, 98] \<and>
   normalize ascii_lower [97, 13, 98] \<noteq> normalize ascii_lower [97, 32, 98]"
  by (simp add: differ_only_in_quotes_or_whitespace_def straight_quote_def is_space_def
      normalize_def before_lower_def strip_cr_def straighten_single_def straighten_double_def
      trim_def ascii_lower_def)

section \<open>Properties of the administrative overrides\<close>

lemma parse_nonneg_int_Some:
  "parse_nonneg_int v = Some n \<Longrightarrow> 0 \<le> n \<and> v = JNumber (of_int n)"
  by (auto simp: parse_nonneg_int_def split: json.splits if_splits)

text \<open>
  C10. An administrative override either is refused and leaves the store as it is, or
  was given a number that is an integer \<open>n\<close> with \<open>0 \<le> n\<close> and stores exactly \<open>n\<close> as the
  balance (or the bonus) of the user addressed: no negative and no fractional value is
  ever written.
\<close>

theorem admin_overrides_store_nonneg_integers:
  "(\<forall>e. fst (post_api_admin_users_balance i v d) = Inl e \<longrightarrow>
        snd (post_api_admin_users_balance i v d) = d) \<and>
   (\<forall>r. fst (post_api_admin_users_balance i v d) = Inr r \<longrightarrow>
        (\<exists>uid n. i = Some uid \<and> 0 \<le> n \<and> v = JNumber (of_int n) \<and>
           snd (post_api_admin_users_balance i v d) =
             d\<lparr>users := map (\<lambda>u. if u_id u = uid then u\<lparr>u_balance_ksh := n\<rparr> else u) (users d)\<rparr>)) \<and>
   (\<forall>e. fst (post_api_admin_users_bonus i v d) = Inl e \<longrightarrow>
        snd (post_api_admin_users_bonus i v d) = d) \<and>
   (\<forall>r. fst (post_api_admin_users_bonus i v d) = Inr r \<longrightarrow>
        (\<exists>uid n. i = Some uid \<and> 0 \<le> n \<and> v = JNumber (of_int n) \<and>
           snd (post_api_admin_users_bonus i v d) =
             d\<lparr>users := map (\<lambda>u. if u_id u = uid then u\<lparr>u_bonus_ksh := n\<rparr> else u) (users d)\<rparr>))"
  by (auto simp: post_api_admin_users_balance_def post_api_admin_users_bonus_def Let_def
      dest!: parse_nonneg_int_Some split: option.splits)

theorem admin_overrides_store_nonneg_integers_witness:
  "fst (post_api_admin_users_balance (Some 2) (JNumber 250) sample_db) \<noteq> Inl BadRequest \<and>
   (\<exists>uid n. 0 \<le> n \<and> JNumber 250 = JNumber (of_int n) \<and>
      snd (post_api_admin_users_balance (Some 2) (JNumber 250) sample_db) =
        sample_db\<lparr>users := map (\<lambda>u. if u_id u = uid then u\<lparr>u_balance_ksh := n\<rparr> else u)
                               (users sample_db)\<rparr>) \<and>
   snd (post_api_admin_users_bonus (Some 2) (JNumber (- 3)) sample_db) = sample_db \<and>
   snd (post_api_admin_users_bonus (Some 2) (JNumber (5 / 2)) sample_db) = sample_db"
proof -
  have 1: "\<exists>r. fst (post_api_admin_users_balance (Some 2) (JNumber 250) sample_db) = Inr r"
    by (simp add: post_api_admin_users_balance_def parse_nonneg_int_def Let_def)
  have fl: "\<lfloor>5 / 2 :: rat\<rfloor> = 2"
    by (simp add: floor_eq_iff)
  have 2: "fst (post_api_admin_users_bonus (Some 2) (JNumber (- 3)) sample_db) = Inl BadRequest"
          "fst (post_api_admin_users_bonus (Some 2) (JNumber (5 / 2)) sample_db) = Inl BadRequest"
    by (simp_all add: post_api_admin_users_bonus_def parse_nonneg_int_def fl)
  from admin_overrides_store_nonneg_integers[of "Some 2" "JNumber 250" sample_db]
       admin_overrides_store_nonneg_integers[of "Some 2" "JNumber (- 3)" sample_db]
       admin_overrides_store_nonneg_integers[of "Some 2" "JNumber (5 / 2)" sample_db] 1 2
  show ?thesis by auto
qed

section \<open>Properties of task completion\<close>

text \<open>
  C9 (as amended). In \<open>POST /api/tasks/:id/complete\<close>, for every call with a finite task id
  whose trimmed answer is shorter than 2 characters, the result is the error
  "Answer is required" and the store is unchanged, whatever the assignment and completion
  state of the task and whatever the storage layer would do.
\<close>

theorem answer_checked_first:
  assumes "length (submitted_answer body) < 2"
  shows "post_api_tasks_complete fails now dayKey userId (Some tid) body d = (Inl AnswerRequired, d)"
  using assms by (simp add: post_api_tasks_complete_def)

theorem answer_checked_first_witness:
  "length (submitted_answer \<lparr>body_answer_text = Some [32, 120, 32], body_answer = None\<rparr>) < 2 \<and>
   post_api_tasks_complete (\<lambda>n. False) ''2024-05-01 09:00:00'' ''2024-05-01'' 1 (Some 1)
     \<lparr>body_answer_text = Some [32, 120, 32], body_answer = None\<rparr> sample_db =
     (Inl AnswerRequired, sample_db) \<and>
   post_api_tasks_complete (\<lambda>n. False) ''2024-05-01 09:00:00'' ''2024-05-01'' 2 (Some 3)
     \<lparr>body_answer_text = Some [32, 120, 32], body_answer = None\<rparr> sample_db =
     (Inl AnswerRequired, sample_db)"
proof -
  have h: "length (submitted_answer \<lparr>body_answer_text = Some [32, 120, 32], body_answer = None\<rparr>) < 2"
    by (simp add: submitted_answer_def trim_def is_space_def)
  from answer_checked_first[OF h] h show ?thesis by simp
qed

text \<open>
  C9 as stated fails: the check of the task id comes before the check of the answer, so a
  call with a blank answer and an id that is not a number is answered "Invalid task id".
\<close>

theorem answer_check_counterexample:
  "length (submitted_answer \<lparr>body_answer_text = None, body_answer = Some [32]\<rparr>) < 2 \<and>
   post_api_tasks_complete (\<lambda>n. False) ''2024-05-01 09:00:00'' ''2024-05-01'' 1 None
     \<lparr>body_answer_text = None, body_answer = Some [32]\<rparr> sample_db = (Inl InvalidTaskId, sample_db)"
  by (simp add: submitted_answer_def trim_def is_space_def post_api_tasks_complete_def)

section \<open>Properties of redemption\<close>

lemma get_user_transfer_bonus:
  "get_user (transfer_bonus userId amount d) userId =
   map_option (\<lambda>u. u\<lparr>u_balance_ksh := u_balance_ksh u + amount,
                        u_bonus_ksh := u_bonus_ksh u - amount\<rparr>) (get_user d userId)"
proof -
  have "find (\<lambda>u. u_id u = userId)
          (map (\<lambda>u. if u_id u = userId
                     then u\<lparr>u_balance_ksh := u_balance_ksh u + amount,
                            u_bonus_ksh := u_bonus_ksh u - amount\<rparr> else u) us) =
        map_option (\<lambda>u. u\<lparr>u_balance_ksh := u_balance_ksh u + amount,
                        u_bonus_ksh := u_bonus_ksh u - amount\<rparr>)
          (find (\<lambda>u. u_id u = userId) us)" for us
    by (induction us) auto
  then show ?thesis by (simp add: get_user_def transfer_bonus_def)
qed

text \<open>
  C4 (as amended). For a user that exists, Redeem fails with ThresholdNotMet if and only
  if the bonus is below the threshold (the setting \<open>referral_redeem_threshold_ksh\<close>, default
  1000, in \<open>POST /api/referrals/redeem\<close>; the constant 1000 in \<open>POST /redeem\<close>). When it
  succeeds, the amount redeemed is the transfer amount (the setting
  \<open>referral_redeem_transfer_ksh\<close>, default 1000, in the first route; the constant 1000 in the
  second): the bonus decreases and the balance increases by exactly that amount.
\<close>

theorem redeem_threshold_and_amount:
  assumes "get_user d userId = Some u"
  shows "(fst (post_api_referrals_redeem userId d) = Inl ThresholdNotMet \<longleftrightarrow>
            u_bonus_ksh u < getIntSetting d ''referral_redeem_threshold_ksh'' 1000) \<and>
         (\<not> u_bonus_ksh u < getIntSetting d ''referral_redeem_threshold_ksh'' 1000 \<longrightarrow>
            fst (post_api_referrals_redeem userId d) =
              Inr \<lparr>redeemed_ksh = getIntSetting d ''referral_redeem_transfer_ksh'' 1000,
                    new_balance_ksh =
                      u_balance_ksh u + getIntSetting d ''referral_redeem_transfer_ksh'' 1000,
                    new_bonus_ksh =
                      u_bonus_ksh u - getIntSetting d ''referral_redeem_transfer_ksh'' 1000\<rparr> \<and>
            get_user (snd (post_api_referrals_redeem userId d)) userId =
              Some (u\<lparr>u_balance_ksh :=
                         u_balance_ksh u + getIntSetting d ''referral_redeem_transfer_ksh'' 1000,
                       u_bonus_ksh :=
                         u_bonus_ksh u - getIntSetting d ''referral_redeem_transfer_ksh'' 1000\<rparr>)) \<and>
         (fst (post_redeem userId d) = Inl ThresholdNotMet \<longleftrightarrow> u_bonus_ksh u < 1000) \<and>
         (\<not> u_bonus_ksh u < 1000 \<longrightarrow>
            fst (post_redeem userId d) =
              Inr \<lparr>redeemed_ksh = 1000, new_balance_ksh = u_balance_ksh u + 1000,
                    new_bonus_ksh = u_bonus_ksh u - 1000\<rparr> \<and>
            get_user (snd (post_redeem userId d)) userId =
              Some (u\<lparr>u_balance_ksh := u_balance_ksh u + 1000,
                       u_bonus_ksh := u_bonus_ksh u - 1000\<rparr>))"
proof -
  have g: "get_user (transfer_bonus userId a d) userId =
           Some (u\<lparr>u_balance_ksh := u_balance_ksh u + a, u_bonus_ksh := u_bonus_ksh u - a\<rparr>)" for a
    using assms by (simp add: get_user_transfer_bonus)
  have g2: "get_user (transfer_bonus userId a d\<lparr>bonus_redemptions := x\<rparr>) userId =
           Some (u\<lparr>u_balance_ksh := u_balance_ksh u + a, u_bonus_ksh := u_bonus_ksh u - a\<rparr>)" for a x
    using g[of a] by (simp add: get_user_def)
  show ?thesis
    using assms by (simp add: post_api_referrals_redeem_def post_redeem_def Let_def g g2)
qed

text \<open>
  With the default settings: a bonus of 950 is refused, a bonus of 1050 with a balance of
  40 leaves a bonus of 50 and a balance of 1040.
\<close>

theorem redeem_threshold_and_amount_witness:
  "get_user sample_db 1 = Some alice \<and> get_user sample_db 2 = Some bob \<and>
   fst (post_api_referrals_redeem 2 sample_db) = Inl ThresholdNotMet \<and>
   fst (post_api_referrals_redeem 1 sample_db) =
     Inr \<lparr>redeemed_ksh = 1000, new_balance_ksh = 1040, new_bonus_ksh = 50\<rparr> \<and>
   fst (post_redeem 2 sample_db) = Inl ThresholdNotMet \<and>
   fst (post_redeem 1 sample_db) =
     Inr \<lparr>redeemed_ksh = 1000, new_balance_ksh = 1040, new_bonus_ksh = 50\<rparr>"
proof -
  have a: "get_user sample_db 1 = Some alice" and b: "get_user sample_db 2 = Some bob"
    by (simp_all add: get_user_def sample_db_def alice_def bob_def sample_tasks_def)
  have s: "getIntSetting sample_db ''referral_redeem_threshold_ksh'' 1000 = 1000"
    "getIntSetting sample_db ''referral_redeem_transfer_ksh'' 1000 = 1000"
    by (simp_all add: getIntSetting_def sample_db_def)
  have v: "u_bonus_ksh alice = 1050" "u_balance_ksh alice = 40" "u_bonus_ksh bob = 950"
    by (simp_all add: alice_def bob_def)
  from redeem_threshold_and_amount[OF a] redeem_threshold_and_amount[OF b] a b
  show ?thesis unfolding s v by simp
qed

text \<open>
  C4 as stated fails: with the transfer amount set to 500, a successful redemption moves
  500, not 1000.
\<close>

theorem redeem_amount_counterexample:
  "fst (post_api_referrals_redeem 1
          (sample_db\<lparr>app_settings := [(''referral_redeem_transfer_ksh'', 500)]\<rparr>)) =
   Inr \<lparr>redeemed_ksh = 500, new_balance_ksh = 540, new_bonus_ksh = 550\<rparr>"
  by (simp add: post_api_referrals_redeem_def get_user_def getIntSetting_def transfer_bonus_def
      sample_db_def alice_def bob_def sample_tasks_def)

text \<open>
  C5 on \<open>POST /api/referrals/redeem\<close>: the bonus is compared with the threshold, and the
  transfer amount is subtracted. With a threshold of 100 and a transfer amount of 1000, a
  user with a bonus of 950 and a balance of 0 is left with a bonus of -50.
\<close>

theorem redeem_drives_bonus_negative:
  "u_bonus_ksh bob = 950 \<and> u_balance_ksh bob = 0 \<and>
   fst (post_api_referrals_redeem 2
          (sample_db\<lparr>app_settings := [(''referral_redeem_threshold_ksh'', 100),
                                       (''referral_redeem_transfer_ksh'', 1000)]\<rparr>)) =
   Inr \<lparr>redeemed_ksh = 1000, new_balance_ksh = 1000, new_bonus_ksh = - 50\<rparr>"
  by (simp add: post_api_referrals_redeem_def get_user_def getIntSetting_def transfer_bonus_def
      sample_db_def alice_def bob_def sample_tasks_def)

section \<open>Atomicity of task completion\<close>

text \<open>
  \<open>POST /api/tasks/:id/complete\<close> is atomic: whichever calls of \<open>run\<close> fail, the handler
  either reports an error and leaves the store as it was, or succeeds and leaves the store
  with the assignment stamped, the completion appended and the balance credited.
\<close>

lemma post_api_tasks_complete_atomic:
  "(\<exists>e. post_api_tasks_complete fails now dayKey userId taskId body d = (Inl e, d)) \<or>
   (\<exists>resp tid dt task.
       taskId = Some tid \<and>
       find (\<lambda>r. dt_user_id r = userId \<and> dt_day_key r = dayKey \<and> dt_task_id r = tid)
         (daily_tasks d) = Some dt \<and>
       find (\<lambda>t. t_id t = tid \<and> t_active t) (tasks d) = Some task \<and>
       post_api_tasks_complete fails now dayKey userId taskId body d =
         (Inr resp,
          d\<lparr>daily_tasks :=
               map (\<lambda>r. if dt_id r = dt_id dt
                        then r\<lparr>dt_completed_at := Some now,
                               dt_answer_text := Some (submitted_answer body)\<rparr> else r)
                 (daily_tasks d),
             task_completions := task_completions d @
               [\<lparr>tc_user_id = userId, tc_task_id = tid, tc_reward_ksh = t_reward_ksh task,
                 tc_answer_text = Some (submitted_answer body), tc_created_day = dayKey\<rparr>],
             users :=
               map (\<lambda>u. if u_id u = userId
                        then u\<lparr>u_balance_ksh := u_balance_ksh u + t_reward_ksh task\<rparr> else u)
                 (users d)\<rparr>))"
  by (auto simp: post_api_tasks_complete_def and_then_def run_stmt_def begin_tx_def commit_tx_def
      rollback_tx_def current_def stamp_daily_task_def insert_task_completion_def
      credit_balance_def Let_def split: option.splits sum.splits)


section \<open>Properties of registration\<close>

lemma fold_max_ge: "(a::nat) \<le> fold max ids a \<and> (\<forall>x\<in>set ids. x \<le> fold max ids a)"
proof (induction ids arbitrary: a)
  case Nil then show ?case by simp
next
  case (Cons i ids)
  from Cons.IH[of "max i a"] show ?case by auto
qed

lemma next_id_fresh: "x \<in> set ids \<Longrightarrow> x < next_id ids"
  using fold_max_ge[of 0 ids] by (auto simp: next_id_def less_Suc_eq_le)

lemma find_SomeD: "find P xs = Some x \<Longrightarrow> x \<in> set xs \<and> P x"
  by (induction xs) (auto split: if_splits)

lemma insert_user_SomeD:
  assumes "insert_user username email pw code referredBy d = Some (d1, lastID)"
  shows "d1 = d\<lparr>users := users d @
               [\<lparr>u_id = lastID, u_username = username, u_email = email, u_password_hash = pw,
                 u_referral_code = code, u_referred_by = referredBy, u_balance_ksh = 0,
                 u_bonus_ksh = 0\<rparr>]\<rparr>"
    and "lastID = next_id (map u_id (users d))"
  using assms by (auto simp: insert_user_def Let_def split: if_splits)

lemma credit_bonus_appended:
  assumes "rid \<in> u_id ` set (users d)" and "u_id new = next_id (map u_id (users d))"
  shows "users (credit_bonus rid amount (d\<lparr>users := users d @ [new]\<rparr>)) =
         map (\<lambda>u. if u_id u = rid then u\<lparr>u_bonus_ksh := u_bonus_ksh u + amount\<rparr> else u) (users d)
         @ [new]"
proof -
  have "rid < next_id (map u_id (users d))"
    using assms(1) by (intro next_id_fresh) auto
  then show ?thesis using assms(2) by (simp add: credit_bonus_def)
qed

lemma first_route_credit:
  assumes reg: "post_api_auth_register email_ok hash rnd data d = (Inr newId, d1)"
    and code: "str_trim (reg_referralCode data) \<noteq> []"
    and ref: "find (\<lambda>u. u_referral_code u = str_trim (reg_referralCode data)) (users d) = Some ref"
    and idpos: "u_id ref \<noteq> 0"
    and rb: "0 \<le> getIntSetting d ''referral_bonus_ksh'' 100"
  shows "\<exists>new. u_id new = newId \<and> u_email new = reg_email data \<and>
           u_username new = reg_username data \<and> u_referred_by new = Some (u_id ref) \<and>
           u_bonus_ksh new = 0 \<and>
           users d1 =
             map (\<lambda>u. if u_id u = u_id ref
                      then u\<lparr>u_bonus_ksh := u_bonus_ksh u + getIntSetting d ''referral_bonus_ksh'' 100\<rparr>
                      else u) (users d) @ [new]"
proof -
  let ?code = "unique_code_loop rnd (reg_username data) d 10 1
                 (makeReferralCode (reg_username data) (rnd 0))"
  let ?rb = "getIntSetting d ''referral_bonus_ksh'' 100"
  from reg code ref obtain d0 where
    ins: "insert_user (reg_username data) (reg_email data) (hash (reg_password data)) ?code
            (Some (u_id ref)) d = Some (d0, newId)"
    and d1: "d1 = (if 0 < getIntSetting d0 ''referral_bonus_ksh'' 100
                   then credit_bonus (u_id ref) (getIntSetting d0 ''referral_bonus_ksh'' 100) d0
                   else d0)"
    using idpos
    by (auto simp: post_api_auth_register_def Let_def split: if_splits option.splits prod.splits)
  let ?new = "\<lparr>u_id = newId, u_username = reg_username data, u_email = reg_email data,
                u_password_hash = hash (reg_password data), u_referral_code = ?code,
                u_referred_by = Some (u_id ref), u_balance_ksh = 0, u_bonus_ksh = 0\<rparr>"
  from insert_user_SomeD[OF ins] have d0: "d0 = d\<lparr>users := users d @ [?new]\<rparr>"
    and nid: "newId = next_id (map u_id (users d))" by simp_all
  have set0: "getIntSetting d0 ''referral_bonus_ksh'' 100 = ?rb"
    by (simp add: d0 getIntSetting_def)
  have mem: "u_id ref \<in> u_id ` set (users d)"
    using find_SomeD[OF ref] by auto
  have cr: "users (credit_bonus (u_id ref) ?rb d0) =
        map (\<lambda>u. if u_id u = u_id ref then u\<lparr>u_bonus_ksh := u_bonus_ksh u + ?rb\<rparr> else u) (users d)
        @ [?new]"
    unfolding d0 by (rule credit_bonus_appended[OF mem]) (simp add: nid)
  have "users d1 =
        map (\<lambda>u. if u_id u = u_id ref then u\<lparr>u_bonus_ksh := u_bonus_ksh u + ?rb\<rparr> else u) (users d)
        @ [?new]"
  proof (cases "0 < ?rb")
    case True
    then show ?thesis using d1 set0 cr by simp
  next
    case False
    with rb have z: "?rb = 0" by simp
    have m: "map (\<lambda>u. if u_id u = u_id ref then u\<lparr>u_bonus_ksh := u_bonus_ksh u + ?rb\<rparr> else u)
               (users d) = users d"
      unfolding z by (rule map_idI) simp
    have "users d1 = users d @ [?new]"
      using d1 set0 z d0 by simp
    then show ?thesis unfolding m .
  qed
  then show ?thesis by (intro exI[of _ ?new]) simp
qed


lemma first_route_retry:
  assumes "reg_email data' \<in> u_email ` set (users d1) \<or>
           reg_username data' \<in> u_username ` set (users d1)"
  shows "\<exists>e. post_api_auth_register email_ok' hash' rnd' data' d1 = (Inl e, d1)"
  using assms by (auto simp: post_api_auth_register_def)

lemma second_route_credit:
  assumes reg: "post_register email_ok hash rnd body d = (Inr newId, d1)"
    and code: "str_trim (reg2_referral_code body) \<noteq> []"
    and ref: "find (\<lambda>u. u_referral_code u = str_trim (reg2_referral_code body)) (users d) = Some ref"
  shows "\<exists>new. u_id new = newId \<and> u_email new = reg2_email body \<and>
           u_username new = reg2_username body \<and> u_referred_by new = Some (u_id ref) \<and>
           u_bonus_ksh new = 0 \<and>
           users d1 =
             map (\<lambda>u. if u_id u = u_id ref then u\<lparr>u_bonus_ksh := u_bonus_ksh u + 100\<rparr> else u)
               (users d) @ [new]"
proof -
  from reg code ref obtain d0 myCode where
    ins: "insert_user (reg2_username body) (reg2_email body) (hash (reg2_password body)) myCode
            (Some (u_id ref)) d = Some (d0, newId)"
    and d1: "d1 = credit_bonus (u_id ref) 100 (insert_or_ignore_referral (u_id ref) newId 100 d0)"
    by (auto simp: post_register_def Let_def split: if_splits option.splits prod.splits)
  let ?new = "\<lparr>u_id = newId, u_username = reg2_username body, u_email = reg2_email body,
                u_password_hash = hash (reg2_password body), u_referral_code = myCode,
                u_referred_by = Some (u_id ref), u_balance_ksh = 0, u_bonus_ksh = 0\<rparr>"
  from insert_user_SomeD[OF ins] have d0: "d0 = d\<lparr>users := users d @ [?new]\<rparr>"
    and nid: "newId = next_id (map u_id (users d))" by simp_all
  have mem: "u_id ref \<in> u_id ` set (users d)"
    using find_SomeD[OF ref] by auto
  have "users (credit_bonus (u_id ref) 100 (d\<lparr>users := users d @ [?new]\<rparr>)) =
        map (\<lambda>u. if u_id u = u_id ref then u\<lparr>u_bonus_ksh := u_bonus_ksh u + 100\<rparr> else u) (users d)
        @ [?new]"
    by (rule credit_bonus_appended[OF mem]) (simp add: nid)
  moreover have "users d1 = users (credit_bonus (u_id ref) 100 (d\<lparr>users := users d @ [?new]\<rparr>))"
    by (simp add: d1 d0 credit_bonus_def insert_or_ignore_referral_def)
  ultimately show ?thesis by (intro exI[of _ ?new]) simp
qed

lemma second_route_retry:
  assumes "reg2_email body' \<in> u_email ` set (users d1) \<or>
           reg2_username body' \<in> u_username ` set (users d1)"
  shows "\<exists>e. post_register email_ok' hash' rnd' body' d1 = (Inl e, d1)"
  using assms by (auto simp: post_register_def)

text \<open>
  C7 (as amended). When a registration with a valid referral code succeeds, the bonus of
  the referrer (of every row with the referrer's key, which is not 0) is incremented
  exactly once, by the referral bonus of the route: the setting \<open>referral_bonus_ksh\<close>
  (default 100, not negative) in \<open>POST /api/auth/register\<close>, the constant 100 in
  \<open>POST /register\<close>; nothing else changes but the new row, whose bonus is 0. Any later
  registration with the same e-mail address or the same user name is refused and leaves
  the store unchanged, so the referrer is not credited again.
\<close>

theorem referral_credited_exactly_once:
  "(post_api_auth_register email_ok hash rnd data d = (Inr newId, d1) \<and>
    str_trim (reg_referralCode data) \<noteq> [] \<and>
    find (\<lambda>u. u_referral_code u = str_trim (reg_referralCode data)) (users d) = Some ref \<and>
    u_id ref \<noteq> 0 \<and> 0 \<le> getIntSetting d ''referral_bonus_ksh'' 100 \<longrightarrow>
      (\<exists>new. u_id new = newId \<and> u_bonus_ksh new = 0 \<and>
         users d1 =
           map (\<lambda>u. if u_id u = u_id ref
                    then u\<lparr>u_bonus_ksh :=
                             u_bonus_ksh u + getIntSetting d ''referral_bonus_ksh'' 100\<rparr>
                    else u) (users d) @ [new]) \<and>
      (\<forall>email_ok' hash' rnd' (data'::register_body).
         reg_email data' = reg_email data \<or> reg_username data' = reg_username data \<longrightarrow>
         (\<exists>e. post_api_auth_register email_ok' hash' rnd' data' d1 = (Inl e, d1)))) \<and>
   (post_register email_ok hash rnd body d = (Inr newId2, d2) \<and>
    str_trim (reg2_referral_code body) \<noteq> [] \<and>
    find (\<lambda>u. u_referral_code u = str_trim (reg2_referral_code body)) (users d) = Some ref2 \<longrightarrow>
      (\<exists>new. u_id new = newId2 \<and> u_bonus_ksh new = 0 \<and>
         users d2 =
           map (\<lambda>u. if u_id u = u_id ref2 then u\<lparr>u_bonus_ksh := u_bonus_ksh u + 100\<rparr> else u)
             (users d) @ [new]) \<and>
      (\<forall>email_ok' hash' rnd' (body'::register_body2).
         reg2_email body' = reg2_email body \<or> reg2_username body' = reg2_username body \<longrightarrow>
         (\<exists>e. post_register email_ok' hash' rnd' body' d2 = (Inl e, d2))))"
proof (intro conjI impI allI; (elim conjE)?)
  assume a: "post_api_auth_register email_ok hash rnd data d = (Inr newId, d1)"
    "str_trim (reg_referralCode data) \<noteq> []"
    "find (\<lambda>u. u_referral_code u = str_trim (reg_referralCode data)) (users d) = Some ref"
    "u_id ref \<noteq> 0" "0 \<le> getIntSetting d ''referral_bonus_ksh'' 100"
  from first_route_credit[OF a] obtain new where
    n: "u_id new = newId" "u_email new = reg_email data" "u_username new = reg_username data"
       "u_bonus_ksh new = 0"
       "users d1 = map (\<lambda>u. if u_id u = u_id ref
                    then u\<lparr>u_bonus_ksh :=
                             u_bonus_ksh u + getIntSetting d ''referral_bonus_ksh'' 100\<rparr>
                    else u) (users d) @ [new]"
    by blast
  from n show "\<exists>new. u_id new = newId \<and> u_bonus_ksh new = 0 \<and>
         users d1 =
           map (\<lambda>u. if u_id u = u_id ref
                    then u\<lparr>u_bonus_ksh :=
                             u_bonus_ksh u + getIntSetting d ''referral_bonus_ksh'' 100\<rparr>
                    else u) (users d) @ [new]" by blast
  fix email_ok' hash' rnd' and data' :: register_body
  assume "reg_email data' = reg_email data \<or> reg_username data' = reg_username data"
  with n have "reg_email data' \<in> u_email ` set (users d1) \<or>
               reg_username data' \<in> u_username ` set (users d1)"
    by (metis (no_types, lifting) image_eqI in_set_conv_decomp)
  then show "\<exists>e. post_api_auth_register email_ok' hash' rnd' data' d1 = (Inl e, d1)"
    by (rule first_route_retry)
next
  assume a: "post_register email_ok hash rnd body d = (Inr newId2, d2)"
    "str_trim (reg2_referral_code body) \<noteq> []"
    "find (\<lambda>u. u_referral_code u = str_trim (reg2_referral_code body)) (users d) = Some ref2"
  from second_route_credit[OF a] obtain new where
    n: "u_id new = newId2" "u_email new = reg2_email body" "u_username new = reg2_username body"
       "u_bonus_ksh new = 0"
       "users d2 = map (\<lambda>u. if u_id u = u_id ref2 then u\<lparr>u_bonus_ksh := u_bonus_ksh u + 100\<rparr> else u)
             (users d) @ [new]"
    by blast
  from n show "\<exists>new. u_id new = newId2 \<and> u_bonus_ksh new = 0 \<and>
         users d2 =
           map (\<lambda>u. if u_id u = u_id ref2 then u\<lparr>u_bonus_ksh := u_bonus_ksh u + 100\<rparr> else u)
             (users d) @ [new]" by blast
  fix email_ok' hash' rnd' and body' :: register_body2
  assume "reg2_email body' = reg2_email body \<or> reg2_username body' = reg2_username body"
  with n have "reg2_email body' \<in> u_email ` set (users d2) \<or>
               reg2_username body' \<in> u_username ` set (users d2)"
    by (metis (no_types, lifting) image_eqI in_set_conv_decomp)
  then show "\<exists>e. post_register email_ok' hash' rnd' body' d2 = (Inl e, d2)"
    by (rule second_route_retry)
qed

text \<open>Evaluating the two routes on the sample store.\<close>

lemma makeReferralCode_carol: "makeReferralCode ''carol'' 7 = ''CAROL1007''"
  by (simp add: makeReferralCode_def is_alnum_def to_upper_def four_digits_def Let_def)

lemma str_trim_code: "str_trim '' ALICE1234 '' = ''ALICE1234''"
  by (simp add: str_trim_def is_space_def)

lemma unique_code_carol: "unique_code_loop (\<lambda>k. 7) ''carol'' sample_db 10 1 ''CAROL1007'' = ''CAROL1007''"
proof -
  have n: "''CAROL1007'' \<notin> u_referral_code ` set (users sample_db)"
    by (simp add: sample_db_def alice_def bob_def sample_tasks_def)
  have "unique_code_loop (\<lambda>k. 7) ''carol'' sample_db (Suc 9) 1 ''CAROL1007'' = ''CAROL1007''"
    unfolding unique_code_loop.simps using n by simp
  then show ?thesis by simp
qed

lemma first_route_carol: "post_api_auth_register sample_email_ok sample_hash (\<lambda>k. 7) carol sample_db =
     (Inr 3, sample_db\<lparr>users := [alice\<lparr>u_bonus_ksh := 1150\<rparr>, bob,
         \<lparr>u_id = 3, u_username = ''carol'', u_email = ''carol@example.com'',
           u_password_hash = ''#secret1'', u_referral_code = ''CAROL1007'',
           u_referred_by = Some 1, u_balance_ksh = 0, u_bonus_ksh = 0\<rparr>]\<rparr>)"
proof -
  have c: "reg_username carol = ''carol''" "reg_referralCode carol = '' ALICE1234 ''"
    "reg_email carol = ''carol@example.com''" "reg_password carol = ''secret1''"
    by (simp_all add: carol_def)
  show ?thesis
    unfolding post_api_auth_register_def c str_trim_code makeReferralCode_carol unique_code_carol
    by (simp add: insert_user_def next_id_def credit_bonus_def
      getIntSetting_def Let_def sample_db_def alice_def bob_def sample_email_ok_def sample_hash_def)
qed

lemma upt8: "[0..<8] = [0, 1, 2, 3, 4, 5, 6, 7::nat]"
  by code_simp

lemma generateReferralCode_sample: "generateReferralCode (\<lambda>k. 7) sample_db 50 0 = Some ''HHHHHHHH''"
proof -
  have c: "map (\<lambda>i. code_chars ! ((\<lambda>k. 7) (0 + i) mod length code_chars)) [0..<8] = ''HHHHHHHH''"
    unfolding upt8 by (simp add: code_chars_def)
  have n: "''HHHHHHHH'' \<notin> u_referral_code ` set (users sample_db)"
    by (simp add: sample_db_def alice_def bob_def sample_tasks_def)
  have "generateReferralCode (\<lambda>k. 7) sample_db (Suc 49) 0 = Some ''HHHHHHHH''"
    unfolding generateReferralCode.simps Let_def c using n by simp
  then show ?thesis by simp
qed

lemma second_route_carol: "post_register sample_email_ok sample_hash (\<lambda>k. 7) carol2 sample_db =
     (Inr 3, sample_db\<lparr>users := [alice\<lparr>u_bonus_ksh := 1150\<rparr>, bob,
         \<lparr>u_id = 3, u_username = ''carol'', u_email = ''carol@example.com'',
           u_password_hash = ''#secret1'', u_referral_code = ''HHHHHHHH'',
           u_referred_by = Some 1, u_balance_ksh = 0, u_bonus_ksh = 0\<rparr>],
         referrals := [\<lparr>r_referrer_id = 1, r_referred_user_id = 3,
           r_bonus_awarded_ksh = 100\<rparr>]\<rparr>)"
proof -
  have c: "reg2_username carol2 = ''carol''" "reg2_referral_code carol2 = '' ALICE1234 ''"
    "reg2_email carol2 = ''carol@example.com''" "reg2_password carol2 = ''secret1''"
    by (simp_all add: carol2_def)
  show ?thesis
    unfolding post_register_def c str_trim_code generateReferralCode_sample
    by (simp add: insert_user_def next_id_def credit_bonus_def insert_or_ignore_referral_def
      getIntSetting_def Let_def sample_db_def alice_def bob_def sample_email_ok_def sample_hash_def)
qed

theorem referral_credited_exactly_once_witness:
  "post_api_auth_register sample_email_ok sample_hash (\<lambda>k. 7) carol sample_db =
     (Inr 3, snd (post_api_auth_register sample_email_ok sample_hash (\<lambda>k. 7) carol sample_db)) \<and>
   post_register sample_email_ok sample_hash (\<lambda>k. 7) carol2 sample_db =
     (Inr 3, snd (post_register sample_email_ok sample_hash (\<lambda>k. 7) carol2 sample_db)) \<and>
   str_trim (reg_referralCode carol) \<noteq> [] \<and>
   find (\<lambda>u. u_referral_code u = str_trim (reg_referralCode carol)) (users sample_db) = Some alice \<and>
   u_id alice \<noteq> 0 \<and> 0 \<le> getIntSetting sample_db ''referral_bonus_ksh'' 100 \<and>
   map u_bonus_ksh (users sample_db) = [1050, 950] \<and>
   map u_bonus_ksh
     (users (snd (post_api_auth_register sample_email_ok sample_hash (\<lambda>k. 7) carol sample_db))) =
     [1150, 950, 0] \<and>
   (\<exists>e. post_api_auth_register sample_email_ok sample_hash (\<lambda>k. 8) carol
           (snd (post_api_auth_register sample_email_ok sample_hash (\<lambda>k. 7) carol sample_db)) =
         (Inl e, snd (post_api_auth_register sample_email_ok sample_hash (\<lambda>k. 7) carol sample_db))) \<and>
   map u_bonus_ksh
     (users (snd (post_register sample_email_ok sample_hash (\<lambda>k. 7) carol2 sample_db))) =
     [1150, 950, 0] \<and>
   (\<exists>e. post_register sample_email_ok sample_hash (\<lambda>k. 8) carol2
           (snd (post_register sample_email_ok sample_hash (\<lambda>k. 7) carol2 sample_db)) =
         (Inl e, snd (post_register sample_email_ok sample_hash (\<lambda>k. 7) carol2 sample_db)))"
proof -
  let ?D1 = "snd (post_api_auth_register sample_email_ok sample_hash (\<lambda>k. 7) carol sample_db)"
  let ?D2 = "snd (post_register sample_email_ok sample_hash (\<lambda>k. 7) carol2 sample_db)"
  have r1: "post_api_auth_register sample_email_ok sample_hash (\<lambda>k. 7) carol sample_db = (Inr 3, ?D1)"
    using first_route_carol by simp
  have r2: "post_register sample_email_ok sample_hash (\<lambda>k. 7) carol2 sample_db = (Inr 3, ?D2)"
    using second_route_carol by simp
  have c1: "str_trim (reg_referralCode carol) = ''ALICE1234''"
    and c2: "str_trim (reg2_referral_code carol2) = ''ALICE1234''"
    using str_trim_code by (simp_all add: carol_def carol2_def)
  have f: "find (\<lambda>u. u_referral_code u = ''ALICE1234'') (users sample_db) = Some alice"
    by (simp add: sample_db_def alice_def)
  have i: "u_id alice \<noteq> 0" by (simp add: alice_def)
  have g: "getIntSetting sample_db ''referral_bonus_ksh'' 100 = 100"
    by (simp add: getIntSetting_def sample_db_def)
  have b: "map u_bonus_ksh (users sample_db) = [1050, 950]"
    by (simp add: sample_db_def alice_def bob_def)
  note T = referral_credited_exactly_once[where email_ok = sample_email_ok and hash = sample_hash
      and rnd = "\<lambda>k. 7" and data = carol and d = sample_db and newId = 3 and ?d1.0 = ?D1
      and ref = alice and body = carol2 and ?newId2.0 = 3 and ?d2.0 = ?D2 and ?ref2.0 = alice]
  have P1: "post_api_auth_register sample_email_ok sample_hash (\<lambda>k. 7) carol sample_db = (Inr 3, ?D1) \<and>
    str_trim (reg_referralCode carol) \<noteq> [] \<and>
    find (\<lambda>u. u_referral_code u = str_trim (reg_referralCode carol)) (users sample_db) = Some alice \<and>
    u_id alice \<noteq> 0 \<and> 0 \<le> getIntSetting sample_db ''referral_bonus_ksh'' 100"
    using r1 c1 f i g by simp
  have P2: "post_register sample_email_ok sample_hash (\<lambda>k. 7) carol2 sample_db = (Inr 3, ?D2) \<and>
    str_trim (reg2_referral_code carol2) \<noteq> [] \<and>
    find (\<lambda>u. u_referral_code u = str_trim (reg2_referral_code carol2)) (users sample_db) = Some alice"
    using r2 c2 f by simp
  note C1 = T[THEN conjunct1, THEN mp, OF P1]
  note C2 = T[THEN conjunct2, THEN mp, OF P2]
  from C1[THEN conjunct1] g obtain new1 where
    n1: "u_bonus_ksh new1 = 0"
        "users ?D1 = map (\<lambda>u. if u_id u = u_id alice
                    then u\<lparr>u_bonus_ksh := u_bonus_ksh u + 100\<rparr> else u) (users sample_db) @ [new1]"
    by auto
  have retry1: "\<exists>e. post_api_auth_register sample_email_ok sample_hash (\<lambda>k. 8) carol ?D1 = (Inl e, ?D1)"
    using C1[THEN conjunct2, rule_format, of carol sample_email_ok sample_hash "\<lambda>k. 8"] by simp
  from C2[THEN conjunct1] obtain new2 where
    n2: "u_bonus_ksh new2 = 0"
        "users ?D2 = map (\<lambda>u. if u_id u = u_id alice
                    then u\<lparr>u_bonus_ksh := u_bonus_ksh u + 100\<rparr> else u) (users sample_db) @ [new2]"
    by auto
  have retry2: "\<exists>e. post_register sample_email_ok sample_hash (\<lambda>k. 8) carol2 ?D2 = (Inl e, ?D2)"
    using C2[THEN conjunct2, rule_format, of carol2 sample_email_ok sample_hash "\<lambda>k. 8"] by simp
  have makeReferralCode_carol: "map u_bonus_ksh (users ?D1) = [1150, 950, 0]"
    unfolding n1(2) using n1(1) by (simp add: sample_db_def alice_def bob_def)
  have m2: "map u_bonus_ksh (users ?D2) = [1150, 950, 0]"
    unfolding n2(2) using n2(1) by (simp add: sample_db_def alice_def bob_def)
  from r1 r2 c1 f i g b makeReferralCode_carol m2 retry1 retry2 show ?thesis by simp
qed

text \<open>
  C7 as stated fails on \<open>POST /register\<close>: with the referral bonus configured as 50, the
  referrer is credited 100.
\<close>

theorem referral_amount_counterexample:
  "getIntSetting (sample_db\<lparr>app_settings := [(''referral_bonus_ksh'', 50)]\<rparr>)
     ''referral_bonus_ksh'' 100 = 50 \<and>
   map u_bonus_ksh (users sample_db) = [1050, 950] \<and>
   map u_bonus_ksh
     (users (snd (post_register sample_email_ok sample_hash (\<lambda>k. 7) carol2
                    (sample_db\<lparr>app_settings := [(''referral_bonus_ksh'', 50)]\<rparr>)))) =
     [1150, 950, 0]"
proof -
  let ?d = "sample_db\<lparr>app_settings := [(''referral_bonus_ksh'', 50)]\<rparr>"
  have c: "map (\<lambda>i. code_chars ! ((\<lambda>k. 7) (0 + i) mod length code_chars)) [0..<8] = ''HHHHHHHH''"
    unfolding upt8 by (simp add: code_chars_def)
  have n: "''HHHHHHHH'' \<notin> u_referral_code ` set (users ?d)"
    by (simp add: sample_db_def alice_def bob_def)
  have "generateReferralCode (\<lambda>k. 7) ?d (Suc 49) 0 = Some ''HHHHHHHH''"
    unfolding generateReferralCode.simps Let_def c using n by simp
  then have g: "generateReferralCode (\<lambda>k. 7) ?d 50 0 = Some ''HHHHHHHH''" by simp
  have b: "reg2_username carol2 = ''carol''" "reg2_referral_code carol2 = '' ALICE1234 ''"
    "reg2_email carol2 = ''carol@example.com''" "reg2_password carol2 = ''secret1''"
    by (simp_all add: carol2_def)
  have "map u_bonus_ksh (users (snd (post_register sample_email_ok sample_hash (\<lambda>k. 7) carol2 ?d))) =
        [1150, 950, 0]"
    unfolding post_register_def b str_trim_code g
    by (simp add: insert_user_def next_id_def credit_bonus_def insert_or_ignore_referral_def
      Let_def sample_db_def alice_def bob_def sample_email_ok_def sample_hash_def)
  then show ?thesis
    by (simp add: getIntSetting_def sample_db_def alice_def bob_def)
qed

section \<open>Properties of the daily assignment\<close>

declare fill_loop.simps [simp del]

lemma random_row_SomeD: "random_row rnd k rows = Some r \<Longrightarrow> r \<in> set rows"
  by (auto simp: random_row_def split: if_splits)

lemma random_row_filter_SomeD:
  "random_row rnd k (filter P rows) = Some r \<Longrightarrow> r \<in> set rows \<and> P r"
  using random_row_SomeD[of rnd k "filter P rows" r] by simp

lemma random_row_None: "random_row rnd k rows = None \<longleftrightarrow> rows = []"
  by (simp add: random_row_def)

lemma pick_inv_skip [simp]: "pick_inv ts limit n (skip_draw st) = pick_inv ts limit n st"
  by (simp add: pick_inv_def skip_draw_def)

lemma pick_inv_clear [simp]: "pick_inv ts limit n (st\<lparr>used := X\<rparr>) = pick_inv ts limit n st"
  by (simp add: pick_inv_def)

lemma pick_inv_push:
  "pick_inv ts limit n st \<Longrightarrow> \<not> limit \<le> int (length (picks st) + n) \<Longrightarrow> row \<in> set ts \<Longrightarrow>
   pick_inv ts limit n (push_pick row st)"
  by (auto simp: pick_inv_def push_pick_def)

lemma category_pass_inv:
  "pick_inv ts limit n st \<Longrightarrow> pick_inv ts limit n (category_pass rnd ts limit n cats st)"
proof (induction cats arbitrary: st)
  case Nil then show ?case by simp
next
  case (Cons cat cats)
  note ih = Cons.IH
  show ?case
    using Cons.prems
    by (auto simp: pick_inv_push dest!: random_row_filter_SomeD intro!: ih split: option.splits)
qed

lemma type_pass_inv:
  "pick_inv ts limit n st \<Longrightarrow> pick_inv ts limit n (type_pass rnd ts limit n typs st)"
proof (induction typs arbitrary: st)
  case Nil then show ?case by simp
next
  case (Cons ty tys)
  note ih = Cons.IH
  show ?case
    using Cons.prems
    by (auto simp: pick_inv_push dest!: random_row_filter_SomeD intro!: ih split: option.splits)
qed

lemma fill_loop_inv:
  "pick_inv ts limit n st \<Longrightarrow> pick_inv ts limit n (fill_loop rnd ts limit n attempts st)"
proof (induction rnd ts limit n attempts st rule: fill_loop.induct)
  case (1 rnd ts limit n attempts st)
  show ?case
  proof (cases "int (length (picks st) + n) < limit")
    case False
    then show ?thesis using "1.prems" by (simp add: fill_loop.simps[of rnd ts limit n attempts st])
  next
    case True
    let ?st' = "if 250 < attempts + 1 then st\<lparr>used := {}\<rparr> else st"
    let ?a' = "if 250 < attempts + 1 then 0 else attempts + 1"
    have inv': "pick_inv ts limit n ?st'" using "1.prems" by simp
    have lt': "\<not> limit \<le> int (length (picks ?st') + n)" using True by simp
    show ?thesis
    proof (cases "random_row rnd (draws ?st') [t \<leftarrow> ts. t_active t]")
      case None
      then show ?thesis
        using True inv' by (simp add: fill_loop.simps[of rnd ts limit n attempts st] Let_def)
    next
      case (Some row)
      have row: "row \<in> set ts" using random_row_filter_SomeD[OF Some] by simp
      show ?thesis
      proof (cases "t_type row \<in> used ?st'")
        case used: True
        have "pick_inv ts limit n (fill_loop rnd ts limit n ?a' (skip_draw ?st'))"
          using "1.IH"(1)[OF True refl refl refl Some used] inv' by simp
        then show ?thesis
          using True Some used by (simp add: fill_loop.simps[of rnd ts limit n attempts st] Let_def)
      next
        case unused: False
        have "pick_inv ts limit n (fill_loop rnd ts limit n ?a' (push_pick row ?st'))"
          using "1.IH"(2)[OF True refl refl refl Some unused] pick_inv_push[OF inv' lt' row] by simp
        then show ?thesis
          using True Some unused by (simp add: fill_loop.simps[of rnd ts limit n attempts st] Let_def)
      qed
    qed
  qed
qed

lemma select_picks_inv:
  assumes "\<not> limit \<le> int (length existing)"
  shows "pick_inv (tasks d) limit (length existing) (select_picks rnd d limit existing)"
proof -
  have init: "pick_inv (tasks d) limit (length existing)
          \<lparr>used = U, usedCats = C, picks = [], draws = k\<rparr>" for U C k
    using assms by (simp add: pick_inv_def)
  obtain categories k where
    sh: "(let cats = [x \<leftarrow> sort (remdups (map t_category [t \<leftarrow> tasks d. t_active t])). x \<noteq> []]
          in shuffle_loop rnd 0 (length cats - 1) cats) = (categories, k)"
    by (rule prod.exhaust)
  show ?thesis
    unfolding select_picks_def Let_def
    using sh[unfolded Let_def]
    by (simp add: fill_loop_inv type_pass_inv category_pass_inv init)
qed

lemma insert_fields [simp]:
  "users (insert_or_ignore_daily_task u k t d) = users d"
  "tasks (insert_or_ignore_daily_task u k t d) = tasks d"
  "app_settings (insert_or_ignore_daily_task u k t d) = app_settings d"
  by (simp_all add: insert_or_ignore_daily_task_def)

lemma fold_insert_fields [simp]:
  "users (fold (insert_or_ignore_daily_task u k) ps d) = users d"
  "tasks (fold (insert_or_ignore_daily_task u k) ps d) = tasks d"
  "app_settings (fold (insert_or_ignore_daily_task u k) ps d) = app_settings d"
  by (induction ps arbitrary: d) simp_all

lemma clean_fields [simp]:
  "users (clean_broken_rows d) = users d"
  "tasks (clean_broken_rows d) = tasks d"
  "app_settings (clean_broken_rows d) = app_settings d"
  by (simp_all add: clean_broken_rows_def Let_def)

lemma filter3:
  "filter A (filter C (filter B xs)) = filter (\<lambda>r. B r \<and> C r) (filter A xs)"
  by (induction xs) auto

lemma existing_rows_clean:
  "existing_rows (clean_broken_rows d) u k =
   [r \<leftarrow> existing_rows d u k. dt_user_id r \<in> u_id ` set (users d) \<and>
                                 dt_task_id r \<in> t_id ` set (tasks d)]"
  unfolding existing_rows_def clean_broken_rows_def Let_def
  by (simp del: filter_filter add: filter3)

lemma length_existing_rows_clean:
  "length (existing_rows (clean_broken_rows d) u k) \<le> length (existing_rows d u k)"
  by (simp add: existing_rows_clean)

lemma existing_rows_insert_other:
  "(u', k') \<noteq> (u, k) \<Longrightarrow>
   existing_rows (insert_or_ignore_daily_task u k t d) u' k' = existing_rows d u' k'"
  by (auto simp: existing_rows_def insert_or_ignore_daily_task_def)

lemma existing_rows_fold_other:
  "(u', k') \<noteq> (u, k) \<Longrightarrow>
   existing_rows (fold (insert_or_ignore_daily_task u k) ps d) u' k' = existing_rows d u' k'"
  by (induction ps arbitrary: d) (simp_all add: existing_rows_insert_other)

lemma length_existing_rows_insert:
  "length (existing_rows (insert_or_ignore_daily_task u k t d) u k) \<le>
   Suc (length (existing_rows d u k))"
  by (simp add: existing_rows_def insert_or_ignore_daily_task_def)

lemma length_existing_rows_fold:
  "length (existing_rows (fold (insert_or_ignore_daily_task u k) ps d) u k) \<le>
   length (existing_rows d u k) + length ps"
proof (induction ps arbitrary: d)
  case Nil then show ?case by simp
next
  case (Cons p ps)
  have "length (existing_rows (fold (insert_or_ignore_daily_task u k) ps
                  (insert_or_ignore_daily_task u k p d)) u k) \<le>
        length (existing_rows (insert_or_ignore_daily_task u k p d) u k) + length ps"
    by (rule Cons.IH)
  also have "\<dots> \<le> Suc (length (existing_rows d u k)) + length ps"
    using length_existing_rows_insert[of u k p d] by simp
  finally show ?case by simp
qed

lemma getIntSetting_cong: "app_settings d' = app_settings d \<Longrightarrow> getIntSetting d' = getIntSetting d"
  by (simp add: getIntSetting_def fun_eq_iff)

lemma ensure_rows_bound:
  "int (length (existing_rows (ensureDailyTasks rnd d userId dayKey) u k)) \<le>
   max (int (length (existing_rows d u k))) (getIntSetting d ''tasks_per_day'' 10)"
proof -
  let ?c = "clean_broken_rows d"
  let ?limit = "getIntSetting d ''tasks_per_day'' 10"
  let ?ex = "existing_rows ?c userId dayKey"
  have lim: "getIntSetting ?c ''tasks_per_day'' 10 = ?limit"
    by (simp add: getIntSetting_def)
  have c: "length (existing_rows ?c u k) \<le> length (existing_rows d u k)"
    by (rule length_existing_rows_clean)
  show ?thesis
  proof (cases "get_user ?c userId = None \<or> ?limit \<le> int (length ?ex)")
    case True
    then have "ensureDailyTasks rnd d userId dayKey = ?c"
      by (auto simp: ensureDailyTasks_def Let_def lim)
    then show ?thesis using c by simp
  next
    case False
    let ?ps = "picks (select_picks rnd ?c ?limit ?ex)"
    from False have e: "ensureDailyTasks rnd d userId dayKey =
        fold (insert_or_ignore_daily_task userId dayKey) ?ps ?c"
      by (auto simp: ensureDailyTasks_def Let_def lim)
    show ?thesis
    proof (cases "(u, k) = (userId, dayKey)")
      case other: False
      then show ?thesis using c by (simp add: e existing_rows_fold_other)
    next
      case same: True
      from False have "\<not> ?limit \<le> int (length ?ex)" by simp
      from select_picks_inv[OF this, of ?c rnd]
      have "int (length ?ps + length ?ex) \<le> ?limit" by (simp add: pick_inv_def)
      moreover have "length (existing_rows (fold (insert_or_ignore_daily_task userId dayKey) ?ps ?c)
                       userId dayKey) \<le> length ?ex + length ?ps"
        by (rule length_existing_rows_fold)
      ultimately show ?thesis using same by (simp add: e)
    qed
  qed
qed

text \<open>
  C2. \<open>ensureDailyTasks\<close> preserves the bound: for every user and day key, if the rows
  stored for that pair do not exceed the configured daily limit before a call (for any
  user and day, under any outcome of the random draws), they do not exceed it after the
  call. The lemma before gives the bound without the hypothesis: the rows after a call
  are at most the larger of the rows before and the limit.
\<close>

theorem daily_rows_bounded:
  assumes "int (length (existing_rows d u k)) \<le> getIntSetting d ''tasks_per_day'' 10"
  shows "int (length (existing_rows (ensureDailyTasks rnd d userId dayKey) u k)) \<le>
         getIntSetting (ensureDailyTasks rnd d userId dayKey) ''tasks_per_day'' 10"
proof -
  have "app_settings (ensureDailyTasks rnd d userId dayKey) = app_settings d"
    by (simp add: ensureDailyTasks_def Let_def)
  then have "getIntSetting (ensureDailyTasks rnd d userId dayKey) = getIntSetting d"
    by (rule getIntSetting_cong)
  then show ?thesis using ensure_rows_bound[of rnd d userId dayKey u k] assms by simp
qed

lemma clean_id: "references_exist d \<Longrightarrow> clean_broken_rows d = d"
  by (simp add: references_exist_def clean_broken_rows_def Let_def filter_id_conv)

lemma references_exist_clean: "references_exist (clean_broken_rows d)"
  by (simp add: references_exist_def clean_broken_rows_def Let_def)

lemma references_exist_insert:
  "references_exist d \<Longrightarrow> u \<in> u_id ` set (users d) \<Longrightarrow> t \<in> t_id ` set (tasks d) \<Longrightarrow>
   references_exist (insert_or_ignore_daily_task u k t d)"
  by (auto simp: references_exist_def insert_or_ignore_daily_task_def)

lemma references_exist_fold:
  "references_exist d \<Longrightarrow> u \<in> u_id ` set (users d) \<Longrightarrow> set ps \<subseteq> t_id ` set (tasks d) \<Longrightarrow>
   references_exist (fold (insert_or_ignore_daily_task u k) ps d)"
proof (induction ps arbitrary: d)
  case Nil then show ?case by simp
next
  case (Cons p ps)
  have 1: "references_exist (insert_or_ignore_daily_task u k p d)"
    using Cons.prems by (intro references_exist_insert) auto
  have 2: "u \<in> u_id ` set (users (insert_or_ignore_daily_task u k p d))"
    using Cons.prems by simp
  have 3: "set ps \<subseteq> t_id ` set (tasks (insert_or_ignore_daily_task u k p d))"
    using Cons.prems by simp
  show ?case using Cons.IH[OF 1 2 3] by simp
qed

lemma get_user_mem: "get_user d u \<noteq> None \<Longrightarrow> u \<in> u_id ` set (users d)"
  by (auto simp: get_user_def dest!: find_SomeD)

lemma ensure_users [simp]: "users (ensureDailyTasks rnd d userId dayKey) = users d"
  and ensure_tasks [simp]: "tasks (ensureDailyTasks rnd d userId dayKey) = tasks d"
  and ensure_settings [simp]:
    "app_settings (ensureDailyTasks rnd d userId dayKey) = app_settings d"
  by (simp_all add: ensureDailyTasks_def Let_def)

lemma references_exist_ensure: "references_exist (ensureDailyTasks rnd d userId dayKey)"
proof -
  let ?c = "clean_broken_rows d"
  let ?limit = "getIntSetting ?c ''tasks_per_day'' 10"
  let ?ex = "existing_rows ?c userId dayKey"
  show ?thesis
  proof (cases "get_user ?c userId = None \<or> ?limit \<le> int (length ?ex)")
    case True
    then have "ensureDailyTasks rnd d userId dayKey = ?c"
      by (auto simp: ensureDailyTasks_def Let_def)
    then show ?thesis by (simp add: references_exist_clean)
  next
    case False
    let ?ps = "picks (select_picks rnd ?c ?limit ?ex)"
    from False have e: "ensureDailyTasks rnd d userId dayKey =
        fold (insert_or_ignore_daily_task userId dayKey) ?ps ?c"
      by (auto simp: ensureDailyTasks_def Let_def)
    from False have "\<not> ?limit \<le> int (length ?ex)" by simp
    from select_picks_inv[OF this, of ?c rnd]
    have sub: "set ?ps \<subseteq> t_id ` set (tasks ?c)" by (simp add: pick_inv_def)
    from False have u: "userId \<in> u_id ` set (users ?c)"
      by (intro get_user_mem) simp
    show ?thesis
      unfolding e by (rule references_exist_fold[OF references_exist_clean u sub])
  qed
qed

text \<open>
  Once the allocation of the day is full, \<open>ensureDailyTasks\<close> is idempotent: if a call
  leaves at least as many rows for the user and the day as the daily limit, a second
  call, under any outcome of its random draws, returns the store unchanged.
\<close>

lemma ensure_idempotent_when_full:
  assumes "getIntSetting d ''tasks_per_day'' 10 \<le>
           int (length (existing_rows (ensureDailyTasks rnd1 d userId dayKey) userId dayKey))"
  shows "ensureDailyTasks rnd2 (ensureDailyTasks rnd1 d userId dayKey) userId dayKey =
         ensureDailyTasks rnd1 d userId dayKey"
proof -
  let ?d1 = "ensureDailyTasks rnd1 d userId dayKey"
  have c: "clean_broken_rows ?d1 = ?d1"
    by (rule clean_id) (rule references_exist_ensure)
  have l: "getIntSetting ?d1 ''tasks_per_day'' 10 = getIntSetting d ''tasks_per_day'' 10"
    by (simp add: getIntSetting_def)
  show ?thesis
    using assms by (subst ensureDailyTasks_def) (simp add: c l Let_def)
qed












lemma fill_loop_skip:
  assumes "int (length (picks st) + n) < limit"
    and "\<forall>t\<in>set ts. t_active t \<longrightarrow> t_type t \<in> used st"
    and "\<exists>t\<in>set ts. t_active t"
    and "attempts + j \<le> 250"
  shows "fill_loop rnd ts limit n attempts st =
         fill_loop rnd ts limit n (attempts + j) (st\<lparr>draws := draws st + j\<rparr>)"
  using assms
proof (induction j arbitrary: attempts st)
  case 0
  then show ?case by simp
next
  case (Suc j)
  from Suc.prems(3) have "[t \<leftarrow> ts. t_active t] \<noteq> []"
    by (auto simp: filter_empty_conv)
  then obtain row where row: "random_row rnd (draws st) [t \<leftarrow> ts. t_active t] = Some row"
    by (cases "random_row rnd (draws st) [t \<leftarrow> ts. t_active t]") (simp_all add: random_row_None)
  have u: "t_type row \<in> used st"
    using random_row_filter_SomeD[OF row] Suc.prems(2) by simp
  have "fill_loop rnd ts limit n attempts st = fill_loop rnd ts limit n (attempts + 1) (skip_draw st)"
    using Suc.prems(1,4) row u
    by (simp add: fill_loop.simps[of rnd ts limit n attempts st] Let_def)
  also have "\<dots> = fill_loop rnd ts limit n (attempts + 1 + j)
                      ((skip_draw st)\<lparr>draws := draws (skip_draw st) + j\<rparr>)"
    using Suc.prems by (intro Suc.IH) (simp_all add: skip_draw_def)
  finally show ?case by (simp add: skip_draw_def)
qed

lemma small_active: "[t \<leftarrow> small_tasks. t_active t] = small_tasks"
  by (simp add: small_tasks_def)

lemma small_by_category:
  "[t \<leftarrow> small_tasks. t_active t \<and> t_category t = ''Surveys''] = small_tasks"
  by (simp add: small_tasks_def)

lemma small_categories:
  "[x \<leftarrow> sort (remdups (map t_category small_tasks)). x \<noteq> []] = [''Surveys'']"
  by (simp add: small_tasks_def)

lemma small_types:
  "[x \<leftarrow> sort (remdups (map t_type small_tasks)). x \<noteq> []] = [''survey'']"
  by (simp add: small_tasks_def)

lemma small_random: "random_row rnd k small_tasks = Some (small_tasks ! (rnd k mod 2))"
proof -
  have "length small_tasks = 2" by (simp add: small_tasks_def)
  then show ?thesis by (auto simp: random_row_def)
qed

lemma small_nth:
  assumes "i < 2"
  shows "t_id (small_tasks ! i) = Suc i" and "t_type (small_tasks ! i) = ''survey''"
    and "t_category (small_tasks ! i) = ''Surveys''"
proof -
  from assms have "i = 0 \<or> i = 1" by auto
  then show "t_id (small_tasks ! i) = Suc i" and "t_type (small_tasks ! i) = ''survey''"
    and "t_category (small_tasks ! i) = ''Surveys''"
    by (auto simp: small_tasks_def)
qed

lemma small_relaxed_pick:
  assumes "int (length (picks st) + n) < 2" and "int (length (picks st) + n) + 1 = 2"
    and "used st = {''survey''}" and "rnd (draws st + 250) mod 2 = i" and "i < 2"
  shows "picks (fill_loop rnd small_tasks 2 n 0 st) = picks st @ [Suc i]"
proof -
  let ?st1 = "st\<lparr>draws := draws st + 250\<rparr>"
  have 1: "fill_loop rnd small_tasks 2 n 0 st = fill_loop rnd small_tasks 2 n (0 + 250) ?st1"
    using assms(1,3) by (intro fill_loop_skip) (simp_all add: small_tasks_def)
  have row: "random_row rnd (draws st + 250) small_tasks = Some (small_tasks ! i)"
    using assms(4) by (simp add: small_random)
  have 2: "fill_loop rnd small_tasks 2 n 250 ?st1 =
           fill_loop rnd small_tasks 2 n 0 (push_pick (small_tasks ! i) (?st1\<lparr>used := {}\<rparr>))"
    using assms(1) row
    by (simp add: fill_loop.simps[of rnd small_tasks 2 n 250 ?st1] Let_def small_active)
  have 3: "fill_loop rnd small_tasks 2 n 0 (push_pick (small_tasks ! i) (?st1\<lparr>used := {}\<rparr>)) =
           push_pick (small_tasks ! i) (?st1\<lparr>used := {}\<rparr>)"
    using assms(2)
    by (simp add: fill_loop.simps[of rnd small_tasks 2 n 0] push_pick_def)
  show ?thesis
    using 1 2 3 small_nth(1)[OF assms(5)] by (simp add: push_pick_def)
qed

lemma small_first_call:
  assumes "rnd 0 mod 2 = 0" and "rnd 251 mod 2 = i" and "i < 2"
  shows "picks (select_picks rnd small_db 2 []) = [1, Suc i]"
proof -
  let ?st = "\<lparr>used = {''survey''}, usedCats = {''Surveys''}, picks = [1], draws = 1\<rparr>"
  have t: "tasks small_db = small_tasks" by (simp add: small_db_def)
  have "select_picks rnd small_db 2 [] = fill_loop rnd small_tasks 2 0 0 ?st"
    unfolding select_picks_def Let_def t small_active small_categories small_types
    using assms(1) small_nth[of 0]
    by (simp add: small_by_category small_random push_pick_def skip_draw_def)
  moreover have "picks (fill_loop rnd small_tasks 2 0 0 ?st) = picks ?st @ [Suc i]"
    using assms(2,3) by (intro small_relaxed_pick) simp_all
  ultimately show ?thesis by simp
qed

lemma small_rows:
  assumes "picks (select_picks rnd small_db 2 []) = ps"
  shows "ensureDailyTasks rnd small_db 1 ''2024-05-01'' =
         fold (insert_or_ignore_daily_task 1 ''2024-05-01'') ps small_db"
  using assms
  by (simp add: ensureDailyTasks_def Let_def clean_broken_rows_def existing_rows_def
      getIntSetting_def get_user_def small_db_def sample_db_def alice_def)

lemma small_first_zero:
  "ensureDailyTasks (\<lambda>k. 0) small_db 1 ''2024-05-01'' =
   small_db\<lparr>daily_tasks :=
     [\<lparr>dt_id = 1, dt_user_id = 1, dt_day_key = ''2024-05-01'', dt_task_id = 1,
       dt_completed_at = None, dt_answer_text = None\<rparr>]\<rparr>"
proof -
  have "picks (select_picks (\<lambda>k. 0) small_db 2 []) = [1, Suc 0]"
    by (rule small_first_call) simp_all
  from small_rows[OF this] show ?thesis
    by (simp add: insert_or_ignore_daily_task_def next_id_def small_db_def)
qed

lemma small_first_id:
  "ensureDailyTasks (\<lambda>k. k) small_db 1 ''2024-05-01'' =
   small_db\<lparr>daily_tasks :=
     [\<lparr>dt_id = 1, dt_user_id = 1, dt_day_key = ''2024-05-01'', dt_task_id = 1,
       dt_completed_at = None, dt_answer_text = None\<rparr>,
      \<lparr>dt_id = 2, dt_user_id = 1, dt_day_key = ''2024-05-01'', dt_task_id = 2,
       dt_completed_at = None, dt_answer_text = None\<rparr>]\<rparr>"
proof -
  have "picks (select_picks (\<lambda>k. k) small_db 2 []) = [1, Suc 1]"
    by (rule small_first_call) simp_all
  from small_rows[OF this] show ?thesis
    by (simp add: insert_or_ignore_daily_task_def next_id_def small_db_def)
qed

lemma small_second_one:
  "ensureDailyTasks (\<lambda>k. 1)
     (small_db\<lparr>daily_tasks :=
        [\<lparr>dt_id = 1, dt_user_id = 1, dt_day_key = ''2024-05-01'', dt_task_id = 1,
          dt_completed_at = None, dt_answer_text = None\<rparr>]\<rparr>) 1 ''2024-05-01'' =
   small_db\<lparr>daily_tasks :=
     [\<lparr>dt_id = 1, dt_user_id = 1, dt_day_key = ''2024-05-01'', dt_task_id = 1,
       dt_completed_at = None, dt_answer_text = None\<rparr>,
      \<lparr>dt_id = 2, dt_user_id = 1, dt_day_key = ''2024-05-01'', dt_task_id = 2,
       dt_completed_at = None, dt_answer_text = None\<rparr>]\<rparr>"
proof -
  let ?row = "\<lparr>dt_id = 1, dt_user_id = 1, dt_day_key = ''2024-05-01'', dt_task_id = 1,
          dt_completed_at = None, dt_answer_text = None\<rparr>"
  let ?d = "small_db\<lparr>daily_tasks := [?row]\<rparr>"
  let ?st = "\<lparr>used = {''survey''}, usedCats = {''Surveys''}, picks = [], draws = 0\<rparr>"
  have t: "tasks ?d = small_tasks" by (simp add: small_db_def)
  have j: "[t \<leftarrow> small_tasks. t_id t \<in> dt_task_id ` set [?row]] = [small_tasks ! 0]"
    by (simp add: small_tasks_def)
  have "select_picks (\<lambda>k. 1) ?d 2 [?row] = fill_loop (\<lambda>k. 1) small_tasks 2 1 0 ?st"
    unfolding select_picks_def Let_def t small_active small_categories small_types j
    using small_nth[of 0] by simp
  moreover have "picks (fill_loop (\<lambda>k. 1) small_tasks 2 1 0 ?st) = picks ?st @ [Suc 1]"
    by (intro small_relaxed_pick) simp_all
  ultimately have p: "picks (select_picks (\<lambda>k. 1) ?d 2 [?row]) = [2]" by simp
  have c: "clean_broken_rows ?d = ?d"
    by (simp add: clean_broken_rows_def Let_def small_db_def small_tasks_def sample_db_def
        alice_def bob_def)
  have e: "existing_rows ?d 1 ''2024-05-01'' = [?row]"
    by (simp add: existing_rows_def)
  have g: "get_user ?d 1 \<noteq> None"
    by (simp add: get_user_def small_db_def sample_db_def alice_def)
  have l: "getIntSetting ?d ''tasks_per_day'' 10 = 2"
    by (simp add: getIntSetting_def small_db_def)
  show ?thesis
    unfolding ensureDailyTasks_def Let_def c e l using g p
    by (simp add: insert_or_ignore_daily_task_def next_id_def small_db_def)
qed

text \<open>
  C3 on the small catalog, with a daily limit of 2 and two free tasks. The first call
  picks the first task in the category pass and again in the relaxation pass, after the
  set of used types is cleared; the insert drops the repetition and one row is stored. The
  second call, made at once and with draws that fall on the second task, finds one row,
  selects again and inserts a second row.
\<close>

theorem ensure_second_call_adds_row:
  "map dt_task_id
     (existing_rows (ensureDailyTasks (\<lambda>k. 0) small_db 1 ''2024-05-01'') 1 ''2024-05-01'') = [1] \<and>
   map dt_task_id
     (existing_rows
        (ensureDailyTasks (\<lambda>k. 1) (ensureDailyTasks (\<lambda>k. 0) small_db 1 ''2024-05-01'')
           1 ''2024-05-01'') 1 ''2024-05-01'') = [1, 2]"
  unfolding small_first_zero small_second_one by (simp add: existing_rows_def)

text \<open>
  In the small catalog, a first call whose draws fall on both tasks fills the day, and
  the second call changes nothing.
\<close>

lemma ensure_idempotent_when_full_small:
  "getIntSetting small_db ''tasks_per_day'' 10 \<le>
     int (length (existing_rows (ensureDailyTasks (\<lambda>k. k) small_db 1 ''2024-05-01'')
                    1 ''2024-05-01'')) \<and>
   ensureDailyTasks (\<lambda>k. 1) (ensureDailyTasks (\<lambda>k. k) small_db 1 ''2024-05-01'')
     1 ''2024-05-01'' =
   ensureDailyTasks (\<lambda>k. k) small_db 1 ''2024-05-01'' \<and>
   map dt_task_id (daily_tasks (ensureDailyTasks (\<lambda>k. k) small_db 1 ''2024-05-01'')) = [1, 2]"
proof -
  have h: "getIntSetting small_db ''tasks_per_day'' 10 \<le>
     int (length (existing_rows (ensureDailyTasks (\<lambda>k. k) small_db 1 ''2024-05-01'')
                    1 ''2024-05-01''))"
    unfolding small_first_id by (simp add: getIntSetting_def existing_rows_def small_db_def)
  have m: "map dt_task_id (daily_tasks (ensureDailyTasks (\<lambda>k. k) small_db 1 ''2024-05-01'')) = [1, 2]"
    unfolding small_first_id by simp
  from ensure_idempotent_when_full[OF h, of "\<lambda>k. 1"] h m show ?thesis by simp
qed

theorem daily_rows_bounded_witness:
  "int (length (existing_rows sample_db 1 ''2024-05-01'')) \<le>
     getIntSetting sample_db ''tasks_per_day'' 10 \<and>
   getIntSetting (ensureDailyTasks (\<lambda>k. 0) sample_db 1 ''2024-05-01'') ''tasks_per_day'' 10 = 10 \<and>
   int (length (existing_rows (ensureDailyTasks (\<lambda>k. 0) sample_db 1 ''2024-05-01'')
                  1 ''2024-05-01'')) \<le> 10"
proof -
  have h: "int (length (existing_rows sample_db 1 ''2024-05-01'')) \<le>
     getIntSetting sample_db ''tasks_per_day'' 10"
    by (simp add: existing_rows_def getIntSetting_def sample_db_def)
  have g: "getIntSetting (ensureDailyTasks (\<lambda>k. 0) sample_db 1 ''2024-05-01'') ''tasks_per_day'' 10 = 10"
    by (simp add: getIntSetting_def sample_db_def)
  from daily_rows_bounded[OF h, of "\<lambda>k. 0" 1 "''2024-05-01''"] h g show ?thesis by simp
qed



end
